theory Spec2Isabelle
  imports Main "HOL-Library.AList" "HOL-Library.List_Lexorder" "HOL-Library.Char_ord"
    "HOL-Library.Sublist"
begin

section \<open>The parallel ring network of the notebook (ring.py, test\_ring2.py)\<close>

subsection \<open>Python values\<close>

datatype py_error = ValueError | ZeroDivisionError | TypeError | RuntimeError

text \<open>
  \<open>range(start, stop, step)\<close> on Python's unbounded integers. CPython computes the
  length of a range object first and then yields \<open>start + k * step\<close>; a zero step
  raises \<open>ValueError\<close>.
\<close>

definition range_length :: "int \<Rightarrow> int \<Rightarrow> int \<Rightarrow> nat" where
  "range_length lo hi step =
     (if 0 < step \<and> lo < hi then nat (1 + (hi - 1 - lo) div step)
      else if step < 0 \<and> hi < lo then nat (1 + (lo - 1 - hi) div (- step))
      else 0)"

definition py_range :: "int \<Rightarrow> int \<Rightarrow> int \<Rightarrow> py_error + int list" where
  "py_range start stop step =
     (if step = 0 then Inl ValueError
      else Inr (map (\<lambda>k. start + int k * step) [0..<range_length start stop step]))"

text \<open>\<open>a % b\<close>: the result takes the sign of the divisor, as \<open>mod\<close> on \<open>int\<close> does.\<close>

definition py_mod :: "int \<Rightarrow> int \<Rightarrow> py_error + int" where
  "py_mod a b = (if b = 0 then Inl ZeroDivisionError else Inr (a mod b))"

subsection \<open>The simulator objects the code touches\<close>

text \<open>
  \<open>pc = h.ParallelContext()\<close>: the rank of this process, the number of processes, and
  the gid registrations made through \<open>pc.set_gid2node\<close>.
\<close>

record parallel_context =
  pc_id :: int
  pc_nhost :: int
  gid2node :: "int \<rightharpoonup> int"

text \<open>
  A connection made by \<open>pc.gid_connect(source_gid, target.syn)\<close>, with the weight and
  delay the code stores in it. Weights and delays are only copied, never computed with,
  so their type is left open.
\<close>

record 'w netcon =
  source_gid :: int
  weight :: 'w
  delay :: 'w

text \<open>
  A cell. The class \<open>BallAndStick\<close> lives in \<open>ballandstick.py\<close>, which is not part
  of the sources; the code here reads \<open>_gid\<close> and \<open>spike_times\<close> and appends to
  \<open>_ncs\<close>. Its constructor is a parameter \<open>mk\<close> of the functions below, applied to
  the gid (the remaining arguments are floating-point coordinates).
\<close>

record ('t, 'w) cell =
  cell_gid :: int
  spike_times :: 't
  ncs :: "'w netcon list"

record ('t, 'w) ring =
  ring_N :: int
  gidlist :: "int list"
  ring_syn_w :: 'w
  ring_syn_delay :: 'w
  cells :: "('t, 'w) cell list"

subsection \<open>class Ring\<close>

text \<open>
  \<open>set_gids\<close>: \<open>self.gidlist = list(range(pc.id(), self._N, pc.nhost()))\<close>, then
  one \<open>pc.set_gid2node(gid, pc.id())\<close> for every gid of the list.
\<close>

definition set_gids :: "parallel_context \<Rightarrow> int \<Rightarrow> py_error + int list \<times> parallel_context" where
  "set_gids pc N =
     (case py_range (pc_id pc) N (pc_nhost pc) of
        Inl e \<Rightarrow> Inl e
      | Inr gl \<Rightarrow>
          Inr (gl, fold (\<lambda>gid p. p\<lparr>gid2node := (gid2node p)(gid \<mapsto> pc_id p)\<rparr>) gl pc))"

text \<open>
  \<open>_create_cells\<close>: one cell for every gid of this host's list, in that order. (Each
  is then announced to the simulator as the source of the spikes of its gid,
  \<open>pc.cell\<close>, which changes nothing the code reads.)
\<close>

definition create_cells :: "(int \<Rightarrow> ('t, 'w) cell) \<Rightarrow> int list \<Rightarrow> ('t, 'w) cell list" where
  "create_cells mk gl = map mk gl"

text \<open>
  \<open>_connect_cells\<close>: every cell of this host receives one connection from the gid
  \<open>(target._gid - 1 + N) % N\<close>, appended to its \<open>_ncs\<close>.
\<close>

fun connect_cells :: "int \<Rightarrow> 'w \<Rightarrow> 'w \<Rightarrow> ('t, 'w) cell list \<Rightarrow> py_error + ('t, 'w) cell list" where
  "connect_cells N w d [] = Inr []"
| "connect_cells N w d (target # rest) =
     (case py_mod (cell_gid target - 1 + N) N of
        Inl e \<Rightarrow> Inl e
      | Inr src \<Rightarrow>
          (case connect_cells N w d rest of
             Inl e \<Rightarrow> Inl e
           | Inr rest' \<Rightarrow>
               Inr (target\<lparr>ncs := ncs target @ [\<lparr>source_gid = src, weight = w, delay = d\<rparr>]\<rparr>
                    # rest')))"

text \<open>
  \<open>Ring.__init__\<close>, up to the stimulus on cell 0 (a \<open>NetStim\<close> object of the
  simulator, which is not a connection between cells).
\<close>

definition ring_init ::
  "parallel_context \<Rightarrow> (int \<Rightarrow> ('t, 'w) cell) \<Rightarrow> int \<Rightarrow> 'w \<Rightarrow> 'w
     \<Rightarrow> py_error + ('t, 'w) ring \<times> parallel_context" where
  "ring_init pc mk N w d =
     (case set_gids pc N of
        Inl e \<Rightarrow> Inl e
      | Inr (gl, pc') \<Rightarrow>
          (case connect_cells N w d (create_cells mk gl) of
             Inl e \<Rightarrow> Inl e
           | Inr cs \<Rightarrow>
               Inr (\<lparr>ring_N = N, gidlist = gl, ring_syn_w = w, ring_syn_delay = d, cells = cs\<rparr>,
                    pc')))"

text \<open>The connections held by a list of cells, as (source gid, target gid, weight, delay).\<close>

definition connections :: "('t, 'w) cell list \<Rightarrow> (int \<times> int \<times> 'w \<times> 'w) list" where
  "connections cs =
     concat (map (\<lambda>c. map (\<lambda>nc. (source_gid nc, cell_gid c, weight nc, delay nc)) (ncs c)) cs)"

text \<open>
  The connections of the whole network: those of every rank \<open>0, \<dots>, nhost - 1\<close>, where
  \<open>P i\<close> is the parallel context of rank \<open>i\<close>.
\<close>

definition network_connections ::
  "(int \<Rightarrow> parallel_context) \<Rightarrow> (int \<Rightarrow> ('t, 'w) cell) \<Rightarrow> int \<Rightarrow> 'w \<Rightarrow> 'w \<Rightarrow> int
     \<Rightarrow> (int \<times> int \<times> 'w \<times> 'w) list" where
  "network_connections P mk N w d nhost =
     concat (map (\<lambda>i. case ring_init (P i) mk N w d of
                         Inl e \<Rightarrow> []
                       | Inr (r, pc') \<Rightarrow> connections (cells r)) [0..nhost - 1])"

text \<open>The gid list \<open>set_gids\<close> leaves on a rank (empty if it raised).\<close>

definition host_gidlist :: "parallel_context \<Rightarrow> int \<Rightarrow> int list" where
  "host_gidlist pc N = (case set_gids pc N of Inl e \<Rightarrow> [] | Inr (gl, pc') \<Rightarrow> gl)"

text \<open>The gid lists of the ranks \<open>0, \<dots>, nhost - 1\<close>, one after the other.\<close>

definition all_gids :: "int \<Rightarrow> int \<Rightarrow> int list" where
  "all_gids N nhost = concat (map (\<lambda>i. [g \<leftarrow> [0..N - 1]. g mod nhost = i]) [0..nhost - 1])"

text \<open>The directed graph of a list of connections: an edge from the source to the target.\<close>

definition ring_edges :: "(int \<times> int \<times> 'w \<times> 'w) list \<Rightarrow> (int \<times> int) set" where
  "ring_edges cs = (\<lambda>c. (fst c, fst (snd c))) ` set cs"

subsection \<open>Gathering the spikes (test\_ring2.py)\<close>

text \<open>A Python \<open>dict\<close> from gid to the spike times recorded for it.\<close>

type_synonym 't spikes = "int \<rightharpoonup> 't"

text \<open>\<open>local_data = {cell._gid: list(cell.spike_times) for cell in ring.cells}\<close>\<close>

definition local_data :: "('t, 'w) cell list \<Rightarrow> 't spikes" where
  "local_data cs = fold (\<lambda>cell data. data(cell_gid cell \<mapsto> spike_times cell)) cs Map.empty"

text \<open>\<open>[local_data] + [None] * (pc.nhost() - 1)\<close>\<close>

definition send_list :: "'t spikes \<Rightarrow> int \<Rightarrow> 't spikes option list" where
  "send_list ld nhost = Some ld # replicate (nat (nhost - 1)) None"

text \<open>
  \<open>pc.py_alltoall\<close>, by its contract in the simulator's reference: every rank passes a
  list with one item per rank, and rank \<open>j\<close> receives the list whose \<open>i\<close>-th item is
  item \<open>j\<close> of the list passed by rank \<open>i\<close>. A list of another length is an error.
  Here \<open>sends\<close> holds the lists of all ranks, in rank order.
\<close>

definition py_alltoall :: "'a list list \<Rightarrow> nat \<Rightarrow> py_error + 'a list" where
  "py_alltoall sends j =
     (if list_all (\<lambda>s. length s = length sends) sends \<and> j < length sends
      then Inr (map (\<lambda>s. s ! j) sends) else Inl RuntimeError)"

text \<open>
  \<open>data = {}\<close> followed by \<open>data.update(process_data)\<close> for every item received;
  \<open>update\<close> lets the new entries win, and raises \<open>TypeError\<close> on \<open>None\<close>.
\<close>

fun update_all :: "'t spikes \<Rightarrow> 't spikes option list \<Rightarrow> py_error + 't spikes" where
  "update_all data [] = Inr data"
| "update_all data (None # rest) = Inl TypeError"
| "update_all data (Some process_data # rest) = update_all (data ++ process_data) rest"

text \<open>Whether some \<open>update\<close> of that loop replaces the value of a key already present.\<close>

fun update_overwrites :: "'t spikes \<Rightarrow> 't spikes option list \<Rightarrow> bool" where
  "update_overwrites data [] = False"
| "update_overwrites data (None # rest) = False"
| "update_overwrites data (Some process_data # rest) =
     (dom data \<inter> dom process_data \<noteq> {} \<or> update_overwrites (data ++ process_data) rest)"

text \<open>The first error of a list of results, or all their values.\<close>

fun collect :: "(py_error + 'a) list \<Rightarrow> py_error + 'a list" where
  "collect [] = Inr []"
| "collect (Inl e # rs) = Inl e"
| "collect (Inr x # rs) = (case collect rs of Inl e \<Rightarrow> Inl e | Inr xs \<Rightarrow> Inr (x # xs))"

text \<open>
  \<open>local_data\<close> on rank \<open>i\<close>: the ring is built, the simulator runs (\<open>pc.psolve\<close>)
  and leaves in every cell the spike times it recorded for it on this rank,
  \<open>recorded i gid\<close>, and the dictionary is read off the cells.
\<close>

definition rank_local_data ::
  "(int \<Rightarrow> parallel_context) \<Rightarrow> (int \<Rightarrow> ('t, 'w) cell) \<Rightarrow> int \<Rightarrow> 'w \<Rightarrow> 'w
     \<Rightarrow> (int \<Rightarrow> int \<Rightarrow> 't) \<Rightarrow> int \<Rightarrow> py_error + 't spikes" where
  "rank_local_data P mk N w d recorded i =
     (case ring_init (P i) mk N w d of
        Inl e \<Rightarrow> Inl e
      | Inr (r, pc') \<Rightarrow>
          Inr (local_data (map (\<lambda>c. c\<lparr>spike_times := recorded i (cell_gid c)\<rparr>) (cells r))))"

text \<open>\<open>all_data\<close> as rank 0 receives it, and the dictionary rank 0 merges from it.\<close>

definition all_data_rank0 ::
  "(int \<Rightarrow> parallel_context) \<Rightarrow> (int \<Rightarrow> ('t, 'w) cell) \<Rightarrow> int \<Rightarrow> 'w \<Rightarrow> 'w
     \<Rightarrow> (int \<Rightarrow> int \<Rightarrow> 't) \<Rightarrow> int \<Rightarrow> py_error + 't spikes option list" where
  "all_data_rank0 P mk N w d recorded nhost =
     (case collect (map (rank_local_data P mk N w d recorded) [0..nhost - 1]) of
        Inl e \<Rightarrow> Inl e
      | Inr lds \<Rightarrow> py_alltoall (map (\<lambda>ld. send_list ld nhost) lds) 0)"

definition gather_rank0 ::
  "(int \<Rightarrow> parallel_context) \<Rightarrow> (int \<Rightarrow> ('t, 'w) cell) \<Rightarrow> int \<Rightarrow> 'w \<Rightarrow> 'w
     \<Rightarrow> (int \<Rightarrow> int \<Rightarrow> 't) \<Rightarrow> int \<Rightarrow> py_error + 't spikes" where
  "gather_rank0 P mk N w d recorded nhost =
     (case all_data_rank0 P mk N w d recorded nhost of
        Inl e \<Rightarrow> Inl e
      | Inr all_data \<Rightarrow> update_all Map.empty all_data)"

section \<open>The documentation build script (build\_rst.sh)\<close>

subsection \<open>The working directory and the external commands\<close>

text \<open>
  The working directory: the names of its entries with their contents, every name once.
\<close>

type_synonym dir = "(string \<times> string) list"

text \<open>
  What the script cannot decide itself is a parameter:
  \<^item> \<open>nbconvert filename d\<close> is the command line
    \<^verbatim>\<open>jupyter nbconvert --to html $filename\<close> run in directory \<open>d\<close> with the
    variable holding \<open>filename\<close> (the shell splits and expands the unquoted variable
    before the converter sees it): its exit status and the directory it leaves;
  \<^item> \<open>redirect target d\<close> is the exit status of an \<open>echo\<close> whose output is
    redirected to \<open>target\<close> in directory \<open>d\<close>: 0 when the file is written, and the
    status of the failed command when the shell cannot open it (the file is then left
    as it is).
\<close>

record env =
  nbconvert :: "string \<Rightarrow> dir \<Rightarrow> nat \<times> dir"
  redirect :: "string \<Rightarrow> dir \<Rightarrow> nat"

text \<open>
  The commands of the script that can fail, with the values of their expanded words:
  the converter, an echo that truncates its target (text, target) and an echo that
  appends to it. The assignment \<^verbatim>\<open>name="${filename%.*}"\<close> always succeeds and
  is not recorded.
\<close>

datatype cmd =
  Nbconvert string
| Echo string string
| EchoAppend string string

text \<open>
  The state of a run: the directory, and the commands executed so far, each with its
  exit status, in the order of execution.
\<close>

record shell =
  files :: dir
  trace :: "(cmd \<times> nat) list"

subsection \<open>Words and texts\<close>

text \<open>The lines of a text, each ended by a newline.\<close>

definition unlines :: "string list \<Rightarrow> string" where
  "unlines ls = concat (map (\<lambda>l. l @ ''\<newline>'') ls)"

text \<open>
  What \<open>echo\<close> writes for one operand. The script runs under \<^verbatim>\<open>/bin/sh\<close> and
  \<open>echo\<close> is the builtin of that shell. The builtin of dash, the \<^verbatim>\<open>/bin/sh\<close>
  of Debian and Ubuntu, expands the escapes of the System V \<open>echo\<close>: a backslash
  followed by \<open>c\<close> ends the output, with no newline; by one of \<open>a b f n r t v\<close> or
  by a backslash it is that character; by up to three octal digits, or by \<open>0\<close> and up
  to three octal digits, it is the character of that code; before anything else the
  backslash stays. An operand without a backslash is written as it is, followed by a
  newline, which is what any POSIX \<open>echo\<close> does; the single operand \<open>-n\<close> writes
  nothing.
\<close>

definition backslash :: char where
  "backslash = CHR 0x5C"

definition is_odigit :: "char \<Rightarrow> bool" where
  "is_odigit c \<longleftrightarrow> c \<in> set ''01234567''"

definition odigit :: "char \<Rightarrow> nat" where
  "odigit c = of_char c - 48"

definition escape_char :: "char \<Rightarrow> char option" where
  "escape_char c =
     (if c = CHR ''a'' then Some (CHR 0x07)
      else if c = CHR ''b'' then Some (CHR 0x08)
      else if c = CHR ''f'' then Some (CHR 0x0C)
      else if c = CHR ''n'' then Some (CHR 0x0A)
      else if c = CHR ''r'' then Some (CHR 0x0D)
      else if c = CHR ''t'' then Some (CHR 0x09)
      else if c = CHR ''v'' then Some (CHR 0x0B)
      else if c = backslash then Some backslash
      else None)"

text \<open>Output so far, and whether \<open>\c\<close> has ended it.\<close>

definition emit :: "char \<Rightarrow> string \<times> bool \<Rightarrow> string \<times> bool" where
  "emit c r = (c # fst r, snd r)"

text \<open>
  The conversion, character by character: outside an escape, just after a backslash,
  after a backslash and \<open>0\<close>, and inside an octal code with \<open>n\<close> more digits allowed
  and the value \<open>v\<close> read so far.
\<close>

fun echo_plain :: "string \<Rightarrow> string \<times> bool"
  and echo_escape :: "string \<Rightarrow> string \<times> bool"
  and echo_zero :: "string \<Rightarrow> string \<times> bool"
  and echo_octal :: "nat \<Rightarrow> nat \<Rightarrow> string \<Rightarrow> string \<times> bool" where
  "echo_plain [] = ([], False)"
| "echo_plain (c # cs) = (if c = backslash then echo_escape cs else emit c (echo_plain cs))"
| "echo_escape [] = ([backslash], False)"
| "echo_escape (c # cs) =
     (if c = CHR ''c'' then ([], True)
      else if c = CHR ''0'' then echo_zero cs
      else if is_odigit c then echo_octal 2 (odigit c) cs
      else (case escape_char c of
              Some e \<Rightarrow> emit e (echo_plain cs)
            | None \<Rightarrow> emit backslash (emit c (echo_plain cs))))"
| "echo_zero [] = ([CHR 0x00], False)"
| "echo_zero (c # cs) =
     (if is_odigit c then echo_octal 2 (odigit c) cs
      else if c = backslash then emit (CHR 0x00) (echo_escape cs)
      else emit (CHR 0x00) (emit c (echo_plain cs)))"
| "echo_octal n v [] = ([char_of v], False)"
| "echo_octal n v (c # cs) =
     (if 0 < n \<and> is_odigit c then echo_octal (n - 1) (8 * v + odigit c) cs
      else if c = backslash then emit (char_of v) (echo_escape cs)
      else emit (char_of v) (emit c (echo_plain cs)))"

definition sh_echo :: "string \<Rightarrow> string" where
  "sh_echo operand =
     (if operand = ''-n'' then []
      else (case echo_plain operand of
              (out, stopped) \<Rightarrow> if stopped then out else out @ ''\<newline>''))"

text \<open>
  The pattern \<^verbatim>\<open>*.ipynb\<close> matches the names that end in \<open>.ipynb\<close> and do not
  start with a dot.
\<close>

definition is_notebook :: "string \<Rightarrow> bool" where
  "is_notebook f \<longleftrightarrow> \<not> prefix ''.'' f \<and> suffix ''.ipynb'' f"

text \<open>
  The notebook files of a directory, in the order the shell lists them: sorted, here by
  the codes of their characters (the collating order of the C locale).
\<close>

definition notebooks :: "dir \<Rightarrow> string list" where
  "notebooks d = sort (filter is_notebook (map fst d))"

text \<open>
  The words of \<^verbatim>\<open>for filename in *.ipynb\<close>: the matching names, sorted; a pattern
  that matches nothing is left as it is.
\<close>

definition glob_ipynb :: "dir \<Rightarrow> string list" where
  "glob_ipynb d = (if notebooks d = [] then [''*.ipynb''] else notebooks d)"

text \<open>
  \<^verbatim>\<open>${filename%.*}\<close>: the value without its shortest suffix that matches
  \<^verbatim>\<open>.*\<close>, that is without its last dot and what follows it.
\<close>

definition strip_ext :: "string \<Rightarrow> string" where
  "strip_ext f =
     (if CHR ''.'' \<in> set f then rev (tl (dropWhile (\<lambda>c. c \<noteq> CHR ''.'') (rev f))) else f)"

text \<open>The three texts the script echoes.\<close>

definition index_header :: string where
  "index_header =
     ''\<newline>Tutorials\<newline>=========\<newline>\<newline>.. toctree::\<newline>   :maxdepth: 2\<newline>''"

definition stub_text :: "string \<Rightarrow> string" where
  "stub_text name =
     name @ ''\<newline>----------------\<newline>\<newline>.. raw:: html\<newline>   :file: '' @ name @ ''.html\<newline>''"

definition index_entry :: "string \<Rightarrow> string" where
  "index_entry name = ''   '' @ name"

subsection \<open>The commands\<close>

definition exec_nbconvert :: "env \<Rightarrow> string \<Rightarrow> shell \<Rightarrow> nat \<times> shell" where
  "exec_nbconvert E filename s =
     (case nbconvert E filename (files s) of
        (st, d) \<Rightarrow> (st, \<lparr>files = d, trace = trace s @ [(Nbconvert filename, st)]\<rparr>))"

text \<open>
  \<^verbatim>\<open>echo "text" > target\<close>: the file is created or truncated, and holds what
  \<open>echo\<close> writes for the text.
\<close>

definition exec_echo :: "env \<Rightarrow> string \<Rightarrow> string \<Rightarrow> shell \<Rightarrow> nat \<times> shell" where
  "exec_echo E text target s =
     (let st = redirect E target (files s) in
      (st, \<lparr>files = (if st = 0 then AList.update target (sh_echo text) (files s)
                      else files s),
            trace = trace s @ [(Echo text target, st)]\<rparr>))"

text \<open>\<^verbatim>\<open>echo "text" >> target\<close>: the file is created or extended.\<close>

definition exec_echo_append :: "env \<Rightarrow> string \<Rightarrow> string \<Rightarrow> shell \<Rightarrow> nat \<times> shell" where
  "exec_echo_append E text target s =
     (let st = redirect E target (files s) in
      (st, \<lparr>files = (if st = 0
                      then AList.update target
                             ((case map_of (files s) target of None \<Rightarrow> [] | Some old \<Rightarrow> old)
                              @ sh_echo text) (files s)
                      else files s),
            trace = trace s @ [(EchoAppend text target, st)]\<rparr>))"

subsection \<open>The script\<close>

text \<open>
  The body of the loop for one word. Under \<^verbatim>\<open>set -e\<close> the shell exits with the
  status of the first command that fails.
\<close>

definition loop_body :: "env \<Rightarrow> string \<Rightarrow> shell \<Rightarrow> nat \<times> shell" where
  "loop_body E filename s =
     (case exec_nbconvert E filename s of
        (st1, s1) \<Rightarrow>
          if st1 \<noteq> 0 then (st1, s1)
          else
            let name = strip_ext filename in
            (case exec_echo E (stub_text name) (name @ ''.rst'') s1 of
               (st2, s2) \<Rightarrow>
                 if st2 \<noteq> 0 then (st2, s2)
                 else exec_echo_append E (index_entry name) ''index.rst'' s2))"

fun for_loop :: "env \<Rightarrow> string list \<Rightarrow> shell \<Rightarrow> nat \<times> shell" where
  "for_loop E [] s = (0, s)"
| "for_loop E (filename # rest) s =
     (case loop_body E filename s of
        (st, s') \<Rightarrow> if st \<noteq> 0 then (st, s') else for_loop E rest s')"

text \<open>The whole script, run in directory \<open>d\<close>: its exit status and the final state.\<close>

definition build_rst :: "env \<Rightarrow> dir \<Rightarrow> nat \<times> shell" where
  "build_rst E d =
     (case exec_echo E index_header ''index.rst'' \<lparr>files = d, trace = []\<rparr> of
        (st, s) \<Rightarrow> if st \<noteq> 0 then (st, s) else for_loop E (glob_ipynb (files s)) s)"

subsection \<open>What a run leaves behind\<close>

text \<open>The commands of one complete pass through the loop body, all successful.\<close>

definition body_events :: "string \<Rightarrow> (cmd \<times> nat) list" where
  "body_events filename =
     [(Nbconvert filename, 0),
      (Echo (stub_text (strip_ext filename)) (strip_ext filename @ ''.rst''), 0),
      (EchoAppend (index_entry (strip_ext filename)) ''index.rst'', 0)]"

text \<open>
  A pass that stops at its \<open>k\<close>-th command (counted from 0), which exits with status
  \<open>st\<close>: the commands before it succeeded.
\<close>

definition failed_pass :: "string \<Rightarrow> nat \<Rightarrow> nat \<Rightarrow> (cmd \<times> nat) list" where
  "failed_pass filename k st =
     take k (body_events filename) @ [(fst (body_events filename ! k), st)]"

text \<open>The files written by the commands of a trace: the targets of its successful echoes.\<close>

fun written_by :: "cmd \<times> nat \<Rightarrow> string list" where
  "written_by (Nbconvert f, st) = []"
| "written_by (Echo text target, st) = (if st = 0 then [target] else [])"
| "written_by (EchoAppend text target, st) = (if st = 0 then [target] else [])"

definition written :: "(cmd \<times> nat) list \<Rightarrow> string list" where
  "written tr = concat (map written_by tr)"

text \<open>
  The effect of the echoes of a trace on the contents of the files, the converter's
  own writing left aside.
\<close>

fun replay_event :: "cmd \<times> nat \<Rightarrow> (string \<rightharpoonup> string) \<Rightarrow> (string \<rightharpoonup> string)" where
  "replay_event (Nbconvert f, st) m = m"
| "replay_event (Echo text target, st) m =
     (if st = 0 then m(target \<mapsto> sh_echo text) else m)"
| "replay_event (EchoAppend text target, st) m =
     (if st = 0
      then m(target \<mapsto> (case m target of None \<Rightarrow> [] | Some old \<Rightarrow> old) @ sh_echo text)
      else m)"

definition replay :: "(cmd \<times> nat) list \<Rightarrow> (string \<rightharpoonup> string) \<Rightarrow> (string \<rightharpoonup> string)" where
  "replay tr m = fold replay_event tr m"

text \<open>A converter that leaves every file whose name ends in \<open>.rst\<close> as it is.\<close>

definition keeps_rst :: "env \<Rightarrow> bool" where
  "keeps_rst E \<longleftrightarrow>
     (\<forall>f d p. suffix ''.rst'' p \<longrightarrow> map_of (snd (nbconvert E f d)) p = map_of d p)"

text \<open>A converter that neither adds nor removes a notebook.\<close>

definition keeps_notebooks :: "env \<Rightarrow> bool" where
  "keeps_notebooks E \<longleftrightarrow> (\<forall>f d. notebooks (snd (nbconvert E f d)) = notebooks d)"

text \<open>Two contents of a directory that agree on every name ending in \<open>.rst\<close>.\<close>

definition rst_eq :: "(string \<rightharpoonup> string) \<Rightarrow> (string \<rightharpoonup> string) \<Rightarrow> bool" where
  "rst_eq m m' \<longleftrightarrow> (\<forall>p. suffix ''.rst'' p \<longrightarrow> m p = m' p)"

text \<open>
  State \<open>s'\<close> follows state \<open>s\<close>: its trace extends the trace of \<open>s\<close>, and its
  \<open>.rst\<close> files are those of \<open>s\<close> after the echoes of the extension.
\<close>

definition follows :: "shell \<Rightarrow> shell \<Rightarrow> bool" where
  "follows s s' \<longleftrightarrow>
     (\<exists>evs. trace s' = trace s @ evs \<and>
            rst_eq (map_of (files s')) (replay evs (map_of (files s))))"

text \<open>
  The echoes of the script: one that truncates writes the index or the stub of its
  target's base name, one that appends writes to the index.
\<close>

fun script_event :: "cmd \<times> nat \<Rightarrow> bool" where
  "script_event (Nbconvert f, st) = True"
| "script_event (Echo msg target, st) =
     (target = ''index.rst'' \<or> (\<exists>b. target = b @ ''.rst'' \<and> msg = stub_text b))"
| "script_event (EchoAppend msg target, st) = (target = ''index.rst'')"

subsection \<open>The properties of the specification\<close>

text \<open>
  ``Exactly N stub files plus one index file'': the run exits with status 0, it has
  written \<open>index.rst\<close>, and the other files it has written are the stubs of the
  notebooks of the directory, as many as there are notebooks.
\<close>

definition stubs_and_index :: "env \<Rightarrow> dir \<Rightarrow> bool" where
  "stubs_and_index E d \<longleftrightarrow>
     (case build_rst E d of
        (st, s) \<Rightarrow>
          st = 0 \<and> ''index.rst'' \<in> set (written (trace s)) \<and>
          set (written (trace s)) - {''index.rst''}
            = (\<lambda>f. strip_ext f @ ''.rst'') ` set (notebooks d) \<and>
          card (set (written (trace s)) - {''index.rst''}) = length (notebooks d))"

text \<open>
  Environments for the examples. In the first the converter writes
  \<open>name.html\<close> for a file of the directory and fails with status 255 for a name
  that is not there; in the second it fails with status 1 on every file. Every echo
  succeeds.
\<close>

definition converting_env :: env where
  "converting_env =
     \<lparr>nbconvert = (\<lambda>f d. if f \<in> set (map fst d)
                           then (0, AList.update (strip_ext f @ ''.html'') ''<html>'' d)
                           else (255, d)),
      redirect = (\<lambda>target d. 0)\<rparr>"


section \<open>Properties of the ring network\<close>

subsection \<open>Round-robin gid lists\<close>

lemma range_mem:
  assumes "0 < step"
  shows "(\<exists>k < range_length start stop step. g = start + int k * step)
         \<longleftrightarrow> start \<le> g \<and> g < stop \<and> (g - start) mod step = 0"
proof
  assume "\<exists>k < range_length start stop step. g = start + int k * step"
  then obtain k where k: "k < range_length start stop step" "g = start + int k * step" by blast
  from k(1) assms have lt: "start < stop" and kl: "int k \<le> (stop - 1 - start) div step"
    by (auto simp: range_length_def split: if_splits)
  have "int k * step \<le> ((stop - 1 - start) div step) * step"
    using kl assms by (simp add: mult_right_mono)
  also have "\<dots> \<le> stop - 1 - start"
    using div_mult_mod_eq [of "stop - 1 - start" step] pos_mod_sign [of step "stop - 1 - start"]
      assms by linarith
  finally show "start \<le> g \<and> g < stop \<and> (g - start) mod step = 0"
    using k(2) assms by simp
next
  assume a: "start \<le> g \<and> g < stop \<and> (g - start) mod step = 0"
  define k where "k = nat ((g - start) div step)"
  have d: "0 \<le> (g - start) div step" using a assms by (simp add: pos_imp_zdiv_nonneg_iff)
  have e: "(g - start) div step * step = g - start" using a by (simp add: mod_0_imp_dvd)
  have "(g - start) div step \<le> (stop - 1 - start) div step"
    using a assms by (intro zdiv_mono1) auto
  then have "k < range_length start stop step"
    using a d assms by (auto simp: range_length_def k_def)
  moreover have "g = start + int k * step" using d e by (simp add: k_def)
  ultimately show "\<exists>k < range_length start stop step. g = start + int k * step" by blast
qed

lemma range_items_set:
  assumes "0 < step"
  shows "set (map (\<lambda>k. start + int k * step) [0..<range_length start stop step])
         = {g. start \<le> g \<and> g < stop \<and> (g - start) mod step = 0}"
proof -
  have "set (map (\<lambda>k. start + int k * step) [0..<range_length start stop step])
        = {g. \<exists>k < range_length start stop step. g = start + int k * step}"
    by auto
  then show ?thesis using range_mem [OF assms] by simp
qed

lemma range_items_strict:
  assumes "0 < step"
  shows "sorted_wrt (<) (map (\<lambda>k. start + int k * step) [0..<n])"
proof -
  have "sorted_wrt (\<lambda>x y. start + int x * step < start + int y * step) [0..<n]"
    by (rule sorted_wrt_mono_rel [OF _ sorted_wrt_upt]) (use assms in simp)
  then show ?thesis by (simp add: sorted_wrt_map)
qed

lemma mod_eq_iff_offset:
  assumes "0 \<le> i" "i < (n::int)"
  shows "(0 \<le> g \<and> g mod n = i) \<longleftrightarrow> (i \<le> g \<and> (g - i) mod n = 0)"
proof
  assume a: "0 \<le> g \<and> g mod n = i"
  have le: "g mod n \<le> g" using a zmod_le_nonneg_dividend [of g n] by blast
  from a have e: "i = g mod n" by simp
  show "i \<le> g \<and> (g - i) mod n = 0" unfolding e using le by simp
next
  assume a: "i \<le> g \<and> (g - i) mod n = 0"
  then have "n dvd (g - i)" by (simp add: mod_0_imp_dvd)
  then obtain q where "g - i = n * q" by (auto simp: dvd_def)
  then have "g = i + n * q" by simp
  then have "g mod n = i mod n" by simp
  then have "g mod n = i" using assms by simp
  moreover have "0 \<le> g" using a assms by linarith
  ultimately show "0 \<le> g \<and> g mod n = i" by blast
qed

lemma py_range_round_robin:
  assumes "1 \<le> nhost" "0 \<le> i" "i < nhost"
  shows "py_range i N nhost = Inr [g \<leftarrow> [0..N - 1]. g mod nhost = i]"
proof -
  let ?xs = "map (\<lambda>k. i + int k * nhost) [0..<range_length i N nhost]"
  let ?ys = "[g \<leftarrow> [0..N - 1]. g mod nhost = i]"
  have pos: "0 < nhost" using assms by simp
  have "sorted_wrt (<) ?xs" by (rule range_items_strict [OF pos])
  then have xs: "sorted ?xs" "distinct ?xs" by (simp_all add: strict_sorted_iff)
  have ys: "sorted ?ys" "distinct ?ys" by (simp_all add: sorted_wrt_filter)
  have "g \<in> set ?xs \<longleftrightarrow> g \<in> set ?ys" for g
  proof -
    have "g \<in> set ?xs \<longleftrightarrow> i \<le> g \<and> g < N \<and> (g - i) mod nhost = 0"
      unfolding range_items_set [OF pos] by simp
    also have "\<dots> \<longleftrightarrow> (0 \<le> g \<and> g mod nhost = i) \<and> g < N"
      unfolding mod_eq_iff_offset [OF assms(2,3)] by blast
    also have "\<dots> \<longleftrightarrow> g \<in> set ?ys" by auto
    finally show ?thesis .
  qed
  then have "set ?xs = set ?ys" by blast
  with xs ys have "?xs = ?ys" by (intro sorted_distinct_set_unique)
  then show ?thesis using pos by (simp add: py_range_def)
qed

lemma fold_set_gid2node:
  "pc_id (fold (\<lambda>gid p. p\<lparr>gid2node := (gid2node p)(gid \<mapsto> pc_id p)\<rparr>) gl pc) = pc_id pc \<and>
   pc_nhost (fold (\<lambda>gid p. p\<lparr>gid2node := (gid2node p)(gid \<mapsto> pc_id p)\<rparr>) gl pc) = pc_nhost pc \<and>
   (\<forall>g. gid2node (fold (\<lambda>gid p. p\<lparr>gid2node := (gid2node p)(gid \<mapsto> pc_id p)\<rparr>) gl pc) g
        = (if g \<in> set gl then Some (pc_id pc) else gid2node pc g))"
  by (induction gl arbitrary: pc) auto

lemma set_gids_eq:
  assumes "1 \<le> pc_nhost pc" "0 \<le> pc_id pc" "pc_id pc < pc_nhost pc"
  shows "\<exists>pc'. set_gids pc N = Inr ([g \<leftarrow> [0..N - 1]. g mod pc_nhost pc = pc_id pc], pc') \<and>
           pc_id pc' = pc_id pc \<and> pc_nhost pc' = pc_nhost pc \<and>
           (\<forall>g. gid2node pc' g =
              (if 0 \<le> g \<and> g < N \<and> g mod pc_nhost pc = pc_id pc then Some (pc_id pc)
               else gid2node pc g))"
  unfolding set_gids_def py_range_round_robin [OF assms]
  by (simp add: fold_set_gid2node)

lemma host_gidlist_eq:
  assumes "1 \<le> pc_nhost pc" "0 \<le> pc_id pc" "pc_id pc < pc_nhost pc"
  shows "host_gidlist pc N = [g \<leftarrow> [0..N - 1]. g mod pc_nhost pc = pc_id pc]"
  using set_gids_eq [OF assms, of N] by (auto simp: host_gidlist_def)

text \<open>
  C6. For every number of processes \<open>nhost \<ge> 1\<close>, every rank \<open>i\<close> of
  \<open>0, \<dots>, nhost - 1\<close> and every cell count \<open>N\<close>, \<open>set_gids\<close> does not raise and
  leaves as \<open>gidlist\<close> the ascending list of the gids \<open>g\<close> of \<open>0, \<dots>, N - 1\<close> with
  \<open>g mod nhost = i\<close>, registering exactly these gids for rank \<open>i\<close>; the lists of two
  different ranks are disjoint, and together they hold exactly \<open>0, \<dots>, N - 1\<close>.
\<close>

theorem set_gids_round_robin:
  assumes "1 \<le> nhost"
    and "\<forall>i\<in>{0..<nhost}. pc_id (P i) = i \<and> pc_nhost (P i) = nhost"
  shows "(\<forall>i\<in>{0..<nhost}. \<exists>pc'.
            set_gids (P i) N = Inr ([g \<leftarrow> [0..N - 1]. g mod nhost = i], pc') \<and>
            (\<forall>g. gid2node pc' g =
               (if 0 \<le> g \<and> g < N \<and> g mod nhost = i then Some i else gid2node (P i) g))) \<and>
         (\<forall>i\<in>{0..<nhost}. \<forall>j\<in>{0..<nhost}. i \<noteq> j \<longrightarrow>
            set (host_gidlist (P i) N) \<inter> set (host_gidlist (P j) N) = {}) \<and>
         (\<Union>i\<in>{0..<nhost}. set (host_gidlist (P i) N)) = {0..N - 1}"
proof (intro conjI ballI impI)
  fix i assume i: "i \<in> {0..<nhost}"
  then have h: "1 \<le> pc_nhost (P i)" "0 \<le> pc_id (P i)" "pc_id (P i) < pc_nhost (P i)"
    and e: "pc_id (P i) = i" "pc_nhost (P i) = nhost"
    using assms by auto
  from set_gids_eq [OF h, of N]
  show "\<exists>pc'. set_gids (P i) N = Inr ([g \<leftarrow> [0..N - 1]. g mod nhost = i], pc') \<and>
          (\<forall>g. gid2node pc' g =
             (if 0 \<le> g \<and> g < N \<and> g mod nhost = i then Some i else gid2node (P i) g))"
    unfolding e by blast
next
  fix i j assume ij: "i \<in> {0..<nhost}" "j \<in> {0..<nhost}" "i \<noteq> j"
  have "host_gidlist (P i) N = [g \<leftarrow> [0..N - 1]. g mod nhost = i]"
    using host_gidlist_eq [of "P i" N] ij(1) assms by auto
  moreover have "host_gidlist (P j) N = [g \<leftarrow> [0..N - 1]. g mod nhost = j]"
    using host_gidlist_eq [of "P j" N] ij(2) assms by auto
  ultimately show "set (host_gidlist (P i) N) \<inter> set (host_gidlist (P j) N) = {}"
    using ij(3) by auto
next
  have eq: "set (host_gidlist (P i) N) = {g. 0 \<le> g \<and> g \<le> N - 1 \<and> g mod nhost = i}"
    if "i \<in> {0..<nhost}" for i
    using host_gidlist_eq [of "P i" N] that assms by auto
  show "(\<Union>i\<in>{0..<nhost}. set (host_gidlist (P i) N)) = {0..N - 1}"
  proof (intro equalityI subsetI)
    fix g assume "g \<in> (\<Union>i\<in>{0..<nhost}. set (host_gidlist (P i) N))"
    then show "g \<in> {0..N - 1}" using eq by auto
  next
    fix g assume g: "g \<in> {0..N - 1}"
    have m: "g mod nhost \<in> {0..<nhost}" using assms(1) by simp
    have "g \<in> set (host_gidlist (P (g mod nhost)) N)" using g eq [OF m] by simp
    then show "g \<in> (\<Union>i\<in>{0..<nhost}. set (host_gidlist (P i) N))" using m by blast
  qed
qed

theorem set_gids_round_robin_witness:
  "(1::int) \<le> 2 \<and>
   host_gidlist \<lparr>pc_id = 0, pc_nhost = 2, gid2node = Map.empty\<rparr> 5 = [0, 2, 4] \<and>
   host_gidlist \<lparr>pc_id = 1, pc_nhost = 2, gid2node = Map.empty\<rparr> 5 = [1, 3] \<and>
   set (host_gidlist \<lparr>pc_id = 0, pc_nhost = 2, gid2node = Map.empty\<rparr> 5)
     \<inter> set (host_gidlist \<lparr>pc_id = 1, pc_nhost = 2, gid2node = Map.empty\<rparr> 5) = {}"
proof -
  let ?P = "\<lambda>i::int. \<lparr>pc_id = i, pc_nhost = 2, gid2node = Map.empty\<rparr>"
  have h1: "(1::int) \<le> 2" by simp
  have h2: "\<forall>i\<in>{0..<2::int}. pc_id (?P i) = i \<and> pc_nhost (?P i) = 2" by simp
  note t = set_gids_round_robin [OF h1 h2, of 5]
  have m0: "(0::int) \<in> {0..<2}" and m1: "(1::int) \<in> {0..<2}" by simp_all
  have l0: "[g \<leftarrow> [0..(5::int) - 1]. g mod 2 = 0] = [0, 2, 4]" by code_simp
  have l1: "[g \<leftarrow> [0..(5::int) - 1]. g mod 2 = 1] = [1, 3]" by code_simp
  from t m0 have "\<exists>pc'. set_gids (?P 0) 5 = Inr ([g \<leftarrow> [0..5 - 1]. g mod 2 = 0], pc')" by blast
  then have g0: "host_gidlist (?P 0) 5 = [0, 2, 4]" unfolding l0 by (auto simp: host_gidlist_def)
  from t m1 have "\<exists>pc'. set_gids (?P 1) 5 = Inr ([g \<leftarrow> [0..5 - 1]. g mod 2 = 1], pc')" by blast
  then have g1: "host_gidlist (?P 1) 5 = [1, 3]" unfolding l1 by (auto simp: host_gidlist_def)
  from t m0 m1 have "set (host_gidlist (?P 0) 5) \<inter> set (host_gidlist (?P 1) 5) = {}" by fastforce
  with g0 g1 h1 show ?thesis by blast
qed

subsection \<open>The ring of connections\<close>

lemma connect_cells_eq:
  assumes "N \<noteq> 0"
  shows "connect_cells N w d cs =
         Inr (map (\<lambda>t. t\<lparr>ncs := ncs t @
                [\<lparr>source_gid = (cell_gid t - 1 + N) mod N, weight = w, delay = d\<rparr>]\<rparr>) cs)"
  using assms by (induction cs) (simp_all add: py_mod_def)

lemma connections_fresh:
  assumes "\<forall>g. cell_gid (mk g) = g \<and> ncs (mk g) = []"
  shows "connections (map (\<lambda>t. t\<lparr>ncs := ncs t @
            [\<lparr>source_gid = (cell_gid t - 1 + N) mod N, weight = w, delay = d\<rparr>]\<rparr>) (map mk gl))
         = map (\<lambda>g. ((g - 1 + N) mod N, g, w, d)) gl"
  using assms by (induction gl) (simp_all add: connections_def)

lemma ring_init_connections:
  assumes "N \<noteq> 0" "1 \<le> pc_nhost pc" "0 \<le> pc_id pc" "pc_id pc < pc_nhost pc"
    and "\<forall>g. cell_gid (mk g) = g \<and> ncs (mk g) = []"
  shows "\<exists>r pc'. ring_init pc mk N w d = Inr (r, pc') \<and>
           gidlist r = [g \<leftarrow> [0..N - 1]. g mod pc_nhost pc = pc_id pc] \<and>
           connections (cells r) =
             map (\<lambda>g. ((g - 1 + N) mod N, g, w, d)) [g \<leftarrow> [0..N - 1]. g mod pc_nhost pc = pc_id pc]"
proof -
  from set_gids_eq [OF assms(2-4), of N] obtain pc' where
    s: "set_gids pc N = Inr ([g \<leftarrow> [0..N - 1]. g mod pc_nhost pc = pc_id pc], pc')" by blast
  show ?thesis
    unfolding ring_init_def s create_cells_def
    using connections_fresh [OF assms(5), of N w d]
    by (simp add: connect_cells_eq [OF assms(1)])
qed

lemma distinct_concat_map:
  assumes "distinct js" "\<forall>i\<in>set js. distinct (f i)"
    and "\<forall>i\<in>set js. \<forall>j\<in>set js. i \<noteq> j \<longrightarrow> set (f i) \<inter> set (f j) = {}"
  shows "distinct (concat (map f js))"
  using assms by (induction js) auto

lemma filter_eq_single:
  assumes "distinct xs" "x \<in> set xs"
  shows "[y \<leftarrow> xs. y = x] = [x]"
  using assms by (induction xs) (auto simp: filter_empty_conv)

lemma all_gids_distinct: "distinct (all_gids N nhost)"
  unfolding all_gids_def by (rule distinct_concat_map) auto

lemma all_gids_set:
  assumes "1 \<le> nhost"
  shows "set (all_gids N nhost) = {0..N - 1}"
proof (intro equalityI subsetI)
  fix g assume "g \<in> set (all_gids N nhost)"
  then show "g \<in> {0..N - 1}" by (auto simp: all_gids_def)
next
  fix g assume g: "g \<in> {0..N - 1}"
  have "0 \<le> g mod nhost" "g mod nhost \<le> nhost - 1" using assms by simp_all
  then show "g \<in> set (all_gids N nhost)" using g by (auto simp: all_gids_def)
qed

lemma network_connections_eq:
  assumes "N \<noteq> 0" "1 \<le> nhost"
    and "\<forall>i\<in>{0..<nhost}. pc_id (P i) = i \<and> pc_nhost (P i) = nhost"
    and "\<forall>g. cell_gid (mk g) = g \<and> ncs (mk g) = []"
  shows "network_connections P mk N w d nhost =
         map (\<lambda>g. ((g - 1 + N) mod N, g, w, d)) (all_gids N nhost)"
proof -
  have "(case ring_init (P i) mk N w d of Inl e \<Rightarrow> [] | Inr (r, pc') \<Rightarrow> connections (cells r))
        = map (\<lambda>g. ((g - 1 + N) mod N, g, w, d)) [g \<leftarrow> [0..N - 1]. g mod nhost = i]"
    if "i \<in> set [0..nhost - 1]" for i
  proof -
    from that assms have h: "1 \<le> pc_nhost (P i)" "0 \<le> pc_id (P i)" "pc_id (P i) < pc_nhost (P i)"
      and e: "pc_id (P i) = i" "pc_nhost (P i) = nhost" by auto
    from ring_init_connections [OF assms(1) h assms(4), of w d] show ?thesis
      unfolding e by auto
  qed
  then have eq: "map (\<lambda>i. case ring_init (P i) mk N w d of Inl e \<Rightarrow> []
                       | Inr (r, pc') \<Rightarrow> connections (cells r)) [0..nhost - 1]
             = map (\<lambda>i. map (\<lambda>g. ((g - 1 + N) mod N, g, w, d)) [g \<leftarrow> [0..N - 1]. g mod nhost = i])
                 [0..nhost - 1]"
    by (intro map_cong refl)
  show ?thesis
    unfolding network_connections_def eq all_gids_def by (simp add: map_concat comp_def)
qed

lemma ring_step_reach:
  assumes "0 \<le> a" "a \<le> b" "b \<le> N - (1::int)"
  shows "(a, b) \<in> ((\<lambda>n. (n, (n + 1) mod N)) ` {0..N - 1})\<^sup>*"
  using assms(2,1,3)
proof (induction b rule: int_ge_induct)
  case base
  show ?case by simp
next
  case (step b)
  then have "(a, b) \<in> ((\<lambda>n. (n, (n + 1) mod N)) ` {0..N - 1})\<^sup>*" by simp
  moreover have "(b + 1) mod N = b + 1" using step by simp
  then have "(b, b + 1) \<in> ((\<lambda>n. (n, (n + 1) mod N)) ` {0..N - 1})" using step by force
  ultimately show ?case by (rule rtrancl_into_rtrancl)
qed

lemma ring_reach:
  assumes "a \<in> {0..N - (1::int)}" "b \<in> {0..N - 1}"
  shows "(a, b) \<in> ((\<lambda>n. (n, (n + 1) mod N)) ` {0..N - 1})\<^sup>*"
proof -
  let ?E = "((\<lambda>n. (n, (n + 1) mod N)) ` {0..N - 1})"
  have N: "1 \<le> N" using assms by simp
  have 1: "(a, N - 1) \<in> ?E\<^sup>*" using ring_step_reach [of a "N - 1" N] assms by simp
  have "(N - 1 + 1) mod N = 0" by simp
  then have 2: "(N - 1, 0) \<in> ?E" using N by force
  have 3: "(0, b) \<in> ?E\<^sup>*" using ring_step_reach [of 0 b N] assms by simp
  from 1 2 3 show ?thesis by (meson rtrancl.rtrancl_into_rtrancl rtrancl_trans)
qed

lemma ring_edges_eq:
  assumes "1 \<le> (N::int)"
  shows "(\<lambda>g. ((g - 1 + N) mod N, g)) ` {0..N - 1} = ((\<lambda>n. (n, (n + 1) mod N)) ` {0..N - 1})"
proof (intro equalityI subsetI)
  fix e assume "e \<in> (\<lambda>g. ((g - 1 + N) mod N, g)) ` {0..N - 1}"
  then obtain g where g: "g \<in> {0..N - 1}" "e = ((g - 1 + N) mod N, g)" by blast
  let ?n = "(g - 1 + N) mod N"
  have "(?n + 1) mod N = g mod N" by (simp add: mod_simps)
  then have "(?n + 1) mod N = g" using g by simp
  moreover have "?n \<in> {0..N - 1}" using assms by simp
  ultimately show "e \<in> ((\<lambda>n. (n, (n + 1) mod N)) ` {0..N - 1})" using g(2) by force
next
  fix e assume "e \<in> ((\<lambda>n. (n, (n + 1) mod N)) ` {0..N - 1})"
  then obtain n where n: "n \<in> {0..N - 1}" "e = (n, (n + 1) mod N)" by blast
  let ?g = "(n + 1) mod N"
  have "(?g - 1 + N) mod N = n mod N" by (simp add: mod_simps)
  then have "(?g - 1 + N) mod N = n" using n by simp
  moreover have "?g \<in> {0..N - 1}" using assms by simp
  ultimately show "e \<in> (\<lambda>g. ((g - 1 + N) mod N, g)) ` {0..N - 1}" using n(2) by force
qed

lemma succ_mod_cases:
  assumes "n \<in> {0..N - (1::int)}"
  shows "(n + 1) mod N = (if n = N - 1 then 0 else n + 1)"
  using assms by auto

lemma ring_edge_set_cases:
  "((\<lambda>n. (n, (n + 1) mod N)) ` {0..N - (1::int)})
   = ((\<lambda>n. (n, if n = N - 1 then 0 else n + 1)) ` {0..N - 1})"
  by (rule image_cong [OF refl]) (simp only: succ_mod_cases)

text \<open>
  C10. For every \<open>N \<ge> 1\<close> and every layout of ranks \<open>0, \<dots>, nhost - 1\<close>, given a
  cell constructor that stores its gid and starts with no connections: no rank raises;
  every cell \<open>g\<close> of \<open>0, \<dots>, N - 1\<close> has exactly one incoming connection in the whole
  network, from \<open>(g - 1 + N) mod N\<close> with weight \<open>syn_w\<close> and delay \<open>syn_delay\<close>;
  the edges are exactly \<open>n \<rightarrow> n + 1\<close> and \<open>N - 1 \<rightarrow> 0\<close>; and every cell reaches
  every cell along them, so they form one directed ring.
\<close>

theorem connect_cells_single_ring:
  assumes "1 \<le> N" "1 \<le> nhost"
    and "\<forall>i\<in>{0..<nhost}. pc_id (P i) = i \<and> pc_nhost (P i) = nhost"
    and "\<forall>g. cell_gid (mk g) = g \<and> ncs (mk g) = []"
  shows "(\<forall>i\<in>{0..<nhost}. \<exists>r pc'. ring_init (P i) mk N w d = Inr (r, pc')) \<and>
         (\<forall>g\<in>{0..N - 1}.
            [c \<leftarrow> network_connections P mk N w d nhost. fst (snd c) = g]
              = [((g - 1 + N) mod N, g, w, d)]) \<and>
         (\<forall>c\<in>set (network_connections P mk N w d nhost). fst (snd c) \<in> {0..N - 1}) \<and>
         ring_edges (network_connections P mk N w d nhost)
           = ((\<lambda>n. (n, if n = N - 1 then 0 else n + 1)) ` {0..N - 1}) \<and>
         (\<forall>a\<in>{0..N - 1}. \<forall>b\<in>{0..N - 1}.
            (a, b) \<in> (ring_edges (network_connections P mk N w d nhost))\<^sup>*)"
proof -
  let ?h = "\<lambda>g. ((g - 1 + N) mod N, g, w, d)"
  let ?net = "network_connections P mk N w d nhost"
  have N0: "N \<noteq> 0" using assms(1) by simp
  have net: "?net = map ?h (all_gids N nhost)"
    by (rule network_connections_eq [OF N0 assms(2-4)])
  have 1: "\<forall>i\<in>{0..<nhost}. \<exists>r pc'. ring_init (P i) mk N w d = Inr (r, pc')"
  proof
    fix i assume "i \<in> {0..<nhost}"
    with assms(3) have "1 \<le> pc_nhost (P i)" "0 \<le> pc_id (P i)" "pc_id (P i) < pc_nhost (P i)"
      by auto
    from ring_init_connections [OF N0 this assms(4), of w d]
    show "\<exists>r pc'. ring_init (P i) mk N w d = Inr (r, pc')" by blast
  qed
  have 2: "\<forall>g\<in>{0..N - 1}. [c \<leftarrow> ?net. fst (snd c) = g] = [?h g]"
  proof
    fix g assume "g \<in> {0..N - 1}"
    then have "g \<in> set (all_gids N nhost)" by (simp add: all_gids_set [OF assms(2)])
    then have "[y \<leftarrow> all_gids N nhost. y = g] = [g]"
      by (rule filter_eq_single [OF all_gids_distinct])
    then show "[c \<leftarrow> ?net. fst (snd c) = g] = [?h g]"
      unfolding net by (simp add: filter_map comp_def)
  qed
  have 3: "\<forall>c\<in>set ?net. fst (snd c) \<in> {0..N - 1}"
    unfolding net using all_gids_set [OF assms(2), of N] by auto
  have "ring_edges ?net = (\<lambda>g. ((g - 1 + N) mod N, g)) ` set (all_gids N nhost)"
    unfolding net ring_edges_def by (simp add: image_image)
  then have e: "ring_edges ?net = ((\<lambda>n. (n, (n + 1) mod N)) ` {0..N - 1})"
    unfolding all_gids_set [OF assms(2)] ring_edges_eq [OF assms(1)] .
  then have 4: "ring_edges ?net = ((\<lambda>n. (n, if n = N - 1 then 0 else n + 1)) ` {0..N - 1})"
    unfolding ring_edge_set_cases .
  have 5: "\<forall>a\<in>{0..N - 1}. \<forall>b\<in>{0..N - 1}. (a, b) \<in> (ring_edges ?net)\<^sup>*"
    unfolding e using ring_reach by blast
  from 1 2 3 4 5 show ?thesis by blast
qed

theorem connect_cells_single_ring_witness:
  "(1::int) \<le> 3 \<and> (1::int) \<le> 2 \<and>
   [c \<leftarrow> network_connections (\<lambda>i. \<lparr>pc_id = i, pc_nhost = 2, gid2node = Map.empty\<rparr>)
          (\<lambda>g. \<lparr>cell_gid = g, spike_times = (), ncs = []\<rparr>) 3 (1::nat) 5 2.
      fst (snd c) = 0] = [(2, 0, 1, 5)] \<and>
   ring_edges (network_connections (\<lambda>i. \<lparr>pc_id = i, pc_nhost = 2, gid2node = Map.empty\<rparr>)
          (\<lambda>g. \<lparr>cell_gid = g, spike_times = (), ncs = []\<rparr>) 3 (1::nat) 5 2)
     = {(0, 1), (1, 2), (2, 0)}"
proof -
  let ?P = "\<lambda>i::int. \<lparr>pc_id = i, pc_nhost = 2, gid2node = Map.empty\<rparr>"
  let ?mk = "\<lambda>g::int. \<lparr>cell_gid = g, spike_times = (), ncs = ([] :: nat netcon list)\<rparr>"
  have h1: "(1::int) \<le> 3" and h2: "(1::int) \<le> 2" by simp_all
  have h3: "\<forall>i\<in>{0..<2::int}. pc_id (?P i) = i \<and> pc_nhost (?P i) = 2" by simp
  have h4: "\<forall>g. cell_gid (?mk g) = g \<and> ncs (?mk g) = []" by simp
  note t = connect_cells_single_ring [OF h1 h2 h3 h4, of 1 5]
  have m: "(0::int) \<in> {0..3 - 1}" by simp
  from t m have a: "[c \<leftarrow> network_connections ?P ?mk 3 1 5 2. fst (snd c) = 0]
      = [((0 - 1 + 3) mod 3, 0, 1, 5)]" by blast
  have s: "((\<lambda>n. (n, if n = 3 - 1 then 0 else n + 1)) ` {0..(3::int) - 1}) = {(0, 1), (1, 2), (2, 0)}"
  proof -
    have "{0..(3::int) - 1} = {0, 1, 2}" by auto
    then show ?thesis by simp
  qed
  from t have "ring_edges (network_connections ?P ?mk 3 1 5 2)
      = ((\<lambda>n. (n, if n = 3 - 1 then 0 else n + 1)) ` {0..(3::int) - 1})" by blast
  then have b: "ring_edges (network_connections ?P ?mk 3 1 5 2) = {(0, 1), (1, 2), (2, 0)}"
    unfolding s .
  from a b show ?thesis by simp
qed

subsection \<open>The gathered spikes\<close>

lemma ring_init_cells:
  assumes "1 \<le> pc_nhost pc" "0 \<le> pc_id pc" "pc_id pc < pc_nhost pc"
  shows "\<exists>r pc'. ring_init pc mk N w d = Inr (r, pc') \<and>
           map cell_gid (cells r) =
             map (\<lambda>g. cell_gid (mk g)) [g \<leftarrow> [0..N - 1]. g mod pc_nhost pc = pc_id pc]"
proof -
  from set_gids_eq [OF assms, of N] obtain pc' where
    s: "set_gids pc N = Inr ([g \<leftarrow> [0..N - 1]. g mod pc_nhost pc = pc_id pc], pc')" by blast
  show ?thesis
  proof (cases "N = 0")
    case True
    then show ?thesis unfolding ring_init_def s create_cells_def by simp
  next
    case False
    show ?thesis unfolding ring_init_def s create_cells_def
      by (simp add: connect_cells_eq [OF False] comp_def)
  qed
qed

lemma fold_local_data:
  assumes "\<forall>c\<in>set cs. spike_times c = f (cell_gid c)"
  shows "fold (\<lambda>cell data. data(cell_gid cell \<mapsto> spike_times cell)) cs m
         = (\<lambda>g. if g \<in> set (map cell_gid cs) then Some (f g) else m g)"
  using assms by (induction cs arbitrary: m) (auto simp: fun_eq_iff)

lemma rank_local_data_eq:
  assumes "1 \<le> pc_nhost (P i)" "0 \<le> pc_id (P i)" "pc_id (P i) < pc_nhost (P i)"
    and "\<forall>g. cell_gid (mk g) = g"
  shows "rank_local_data P mk N w d recorded i =
         Inr (\<lambda>g. if 0 \<le> g \<and> g \<le> N - 1 \<and> g mod pc_nhost (P i) = pc_id (P i)
                  then Some (recorded i g) else None)"
proof -
  from ring_init_cells [OF assms(1-3), of mk N w d] obtain r pc' where
    r: "ring_init (P i) mk N w d = Inr (r, pc')"
       "map cell_gid (cells r)
        = map (\<lambda>g. cell_gid (mk g)) [g \<leftarrow> [0..N - 1]. g mod pc_nhost (P i) = pc_id (P i)]"
    by blast
  let ?cs = "map (\<lambda>c. c\<lparr>spike_times := recorded i (cell_gid c)\<rparr>) (cells r)"
  have g: "map cell_gid ?cs = [g \<leftarrow> [0..N - 1]. g mod pc_nhost (P i) = pc_id (P i)]"
    using r(2) assms(4) by (simp add: comp_def)
  have "\<forall>c\<in>set ?cs. spike_times c = recorded i (cell_gid c)" by auto
  from fold_local_data [OF this, of Map.empty]
  have "local_data ?cs = (\<lambda>g. if g \<in> set (map cell_gid ?cs) then Some (recorded i g) else None)"
    by (simp add: local_data_def)
  then have "local_data ?cs
      = (\<lambda>g. if 0 \<le> g \<and> g \<le> N - 1 \<and> g mod pc_nhost (P i) = pc_id (P i)
             then Some (recorded i g) else None)"
    unfolding g by (auto simp: fun_eq_iff)
  then show ?thesis unfolding rank_local_data_def r(1) by simp
qed

lemma collect_map_Inr:
  assumes "\<forall>x\<in>set xs. f x = Inr (g x)"
  shows "collect (map f xs) = Inr (map g xs)"
  using assms by (induction xs) simp_all

lemma py_alltoall_send_lists:
  assumes "1 \<le> nhost" "length lds = nat nhost"
  shows "py_alltoall (map (\<lambda>ld. send_list ld nhost) lds) 0 = Inr (map Some lds)"
proof -
  have "length (send_list ld nhost) = nat nhost" for ld :: "'a spikes"
    using assms(1) by (simp add: send_list_def)
  then have "list_all (\<lambda>s. length s = length (map (\<lambda>ld. send_list ld nhost) lds))
               (map (\<lambda>ld. send_list ld nhost) lds)"
    using assms(2) by (simp add: list_all_iff)
  moreover have "0 < length (map (\<lambda>ld. send_list ld nhost) lds)" using assms by simp
  moreover have "map (\<lambda>s. s ! 0) (map (\<lambda>ld. send_list ld nhost) lds) = map Some lds"
    by (simp add: send_list_def comp_def)
  ultimately show ?thesis unfolding py_alltoall_def by simp
qed

lemma update_all_Some:
  "update_all data (map Some lds) = Inr (fold (\<lambda>pd data. data ++ pd) lds data)"
  by (induction lds arbitrary: data) simp_all

lemma fold_update_value:
  assumes "\<forall>pd\<in>set lds. pd g = None \<or> pd g = Some v"
    and "data g = Some v \<or> (\<exists>pd\<in>set lds. pd g = Some v)"
  shows "fold (\<lambda>pd data. data ++ pd) lds data g = Some v"
  using assms
proof (induction lds arbitrary: data)
  case Nil
  then show ?case by simp
next
  case (Cons pd lds)
  have "(data ++ pd) g = Some v \<or> (\<exists>pd\<in>set lds. pd g = Some v)"
    using Cons.prems by (auto simp: map_add_def split: option.splits)
  moreover have "\<forall>pd\<in>set lds. pd g = None \<or> pd g = Some v" using Cons.prems by simp
  ultimately show ?case using Cons.IH [of "data ++ pd"] by simp
qed

lemma fold_update_dom:
  "dom (fold (\<lambda>pd data. data ++ pd) lds data) = dom data \<union> (\<Union>pd\<in>set lds. dom pd)"
  by (induction lds arbitrary: data) auto

lemma no_overwrite_disjoint:
  assumes "distinct js" "\<forall>i\<in>set js. dom data \<inter> dom (LD i) = {}"
    and "\<forall>i\<in>set js. \<forall>j\<in>set js. i \<noteq> j \<longrightarrow> dom (LD i) \<inter> dom (LD j) = {}"
  shows "\<not> update_overwrites data (map Some (map LD js))"
  using assms
proof (induction js arbitrary: data)
  case Nil
  then show ?case by simp
next
  case (Cons j js)
  have "\<forall>i\<in>set js. dom (data ++ LD j) \<inter> dom (LD i) = {}"
  proof
    fix i assume i: "i \<in> set js"
    then have "i \<noteq> j" using Cons.prems(1) by auto
    then have "dom (LD j) \<inter> dom (LD i) = {}" using Cons.prems(3) i by auto
    moreover have "dom data \<inter> dom (LD i) = {}" using Cons.prems(2) i by simp
    ultimately show "dom (data ++ LD j) \<inter> dom (LD i) = {}" by auto
  qed
  moreover have "distinct js" using Cons.prems(1) by simp
  moreover have "\<forall>i\<in>set js. \<forall>k\<in>set js. i \<noteq> k \<longrightarrow> dom (LD i) \<inter> dom (LD k) = {}"
    using Cons.prems(3) by simp
  ultimately have "\<not> update_overwrites (data ++ LD j) (map Some (map LD js))"
    using Cons.IH [of "data ++ LD j"] by blast
  moreover have "dom data \<inter> dom (LD j) = {}" using Cons.prems(2) by simp
  ultimately show ?case by simp
qed

text \<open>
  C7. For every layout of ranks \<open>0, \<dots>, nhost - 1\<close> and a cell constructor that stores
  its gid: the local dictionary of every rank has exactly this rank's gids as keys, each
  mapped to the spike times recorded on this rank; rank 0 receives the dictionaries of
  all ranks, no \<open>update\<close> of its merge replaces a key already present, and the merged
  dictionary has the keys \<open>0, \<dots>, N - 1\<close>, each mapped to the spike times recorded on
  the rank \<open>gid mod nhost\<close> that owns it.
\<close>

theorem gather_spikes_complete:
  assumes "1 \<le> nhost"
    and "\<forall>i\<in>{0..<nhost}. pc_id (P i) = i \<and> pc_nhost (P i) = nhost"
    and "\<forall>g. cell_gid (mk g) = g"
  shows "(\<forall>i\<in>{0..<nhost}. \<exists>ld. rank_local_data P mk N w d recorded i = Inr ld \<and>
            dom ld = set (host_gidlist (P i) N) \<and>
            (\<forall>g\<in>set (host_gidlist (P i) N). ld g = Some (recorded i g))) \<and>
         (\<exists>all_data data.
            all_data_rank0 P mk N w d recorded nhost = Inr all_data \<and>
            length all_data = nat nhost \<and>
            \<not> update_overwrites Map.empty all_data \<and>
            gather_rank0 P mk N w d recorded nhost = Inr data \<and>
            dom data = {0..N - 1} \<and>
            (\<forall>g\<in>{0..N - 1}. data g = Some (recorded (g mod nhost) g)))"
proof -
  let ?LD = "\<lambda>i g. if 0 \<le> g \<and> g \<le> N - 1 \<and> g mod nhost = i then Some (recorded i g) else None"
  let ?js = "[0..nhost - 1]"
  have ld: "rank_local_data P mk N w d recorded i = Inr (?LD i)" if "i \<in> {0..<nhost}" for i
  proof -
    from that assms(2) have e: "pc_id (P i) = i" "pc_nhost (P i) = nhost" by auto
    have h: "1 \<le> pc_nhost (P i)" "0 \<le> pc_id (P i)" "pc_id (P i) < pc_nhost (P i)"
      unfolding e using that assms(1) by auto
    from rank_local_data_eq [of P i mk N w d recorded, OF h assms(3)]
    show ?thesis unfolding e .
  qed
  have hg: "set (host_gidlist (P i) N) = {g. 0 \<le> g \<and> g \<le> N - 1 \<and> g mod nhost = i}"
    if "i \<in> {0..<nhost}" for i
    using host_gidlist_eq [of "P i" N] that assms(1,2) by auto
  have domLD: "dom (?LD i) = {g. 0 \<le> g \<and> g \<le> N - 1 \<and> g mod nhost = i}" for i
    by (auto simp: dom_def)
  have A: "\<forall>i\<in>{0..<nhost}. \<exists>ld. rank_local_data P mk N w d recorded i = Inr ld \<and>
            dom ld = set (host_gidlist (P i) N) \<and>
            (\<forall>g\<in>set (host_gidlist (P i) N). ld g = Some (recorded i g))"
  proof
    fix i assume i: "i \<in> {0..<nhost}"
    have "dom (?LD i) = set (host_gidlist (P i) N)" unfolding hg [OF i] domLD ..
    moreover have "\<forall>g\<in>set (host_gidlist (P i) N). ?LD i g = Some (recorded i g)"
      unfolding hg [OF i] by simp
    ultimately show "\<exists>ld. rank_local_data P mk N w d recorded i = Inr ld \<and>
            dom ld = set (host_gidlist (P i) N) \<and>
            (\<forall>g\<in>set (host_gidlist (P i) N). ld g = Some (recorded i g))"
      using ld [OF i] by blast
  qed
  have "\<forall>i\<in>set ?js. rank_local_data P mk N w d recorded i = Inr (?LD i)"
    using ld by simp
  then have c: "collect (map (rank_local_data P mk N w d recorded) ?js) = Inr (map ?LD ?js)"
    by (rule collect_map_Inr)
  have len: "length (map ?LD ?js) = nat nhost" using assms(1) by simp
  have ad: "all_data_rank0 P mk N w d recorded nhost = Inr (map Some (map ?LD ?js))"
    unfolding all_data_rank0_def c using py_alltoall_send_lists [OF assms(1) len] by simp
  have g: "gather_rank0 P mk N w d recorded nhost
           = Inr (fold (\<lambda>pd data. data ++ pd) (map ?LD ?js) Map.empty)"
    unfolding gather_rank0_def ad sum.case update_all_Some ..
  have now: "\<not> update_overwrites Map.empty (map Some (map ?LD ?js))"
  proof (rule no_overwrite_disjoint)
    show "distinct ?js" by simp
    show "\<forall>i\<in>set ?js. dom Map.empty \<inter> dom (?LD i) = {}" by simp
    show "\<forall>i\<in>set ?js. \<forall>j\<in>set ?js. i \<noteq> j \<longrightarrow> dom (?LD i) \<inter> dom (?LD j) = {}"
      unfolding domLD by auto
  qed
  have mem: "g mod nhost \<in> set ?js" for g using assms(1) by simp
  have dm: "dom (fold (\<lambda>pd data. data ++ pd) (map ?LD ?js) Map.empty) = {0..N - 1}"
  proof -
    have "(\<Union>pd\<in>set (map ?LD ?js). dom pd) = (\<Union>i\<in>set ?js. dom (?LD i))" by simp
    also have "\<dots> = (\<Union>i\<in>set ?js. {g. 0 \<le> g \<and> g \<le> N - 1 \<and> g mod nhost = i})"
      unfolding domLD ..
    also have "\<dots> = {0..N - 1}" using mem by auto
    finally show ?thesis unfolding fold_update_dom by simp
  qed
  have val: "\<forall>g\<in>{0..N - 1}.
      fold (\<lambda>pd data. data ++ pd) (map ?LD ?js) Map.empty g = Some (recorded (g mod nhost) g)"
  proof
    fix g assume gi: "g \<in> {0..N - 1}"
    show "fold (\<lambda>pd data. data ++ pd) (map ?LD ?js) Map.empty g = Some (recorded (g mod nhost) g)"
    proof (rule fold_update_value)
      show "\<forall>pd\<in>set (map ?LD ?js). pd g = None \<or> pd g = Some (recorded (g mod nhost) g)"
        by auto
      show "Map.empty g = Some (recorded (g mod nhost) g) \<or>
          (\<exists>pd\<in>set (map ?LD ?js). pd g = Some (recorded (g mod nhost) g))"
      proof (rule disjI2, rule bexI [where x = "?LD (g mod nhost)"])
        show "?LD (g mod nhost) g = Some (recorded (g mod nhost) g)" using gi by simp
        show "?LD (g mod nhost) \<in> set (map ?LD ?js)"
          unfolding set_map by (rule image_eqI [where x = "g mod nhost"]) (simp_all only: mem)
      qed
    qed
  qed
  have B: "\<exists>all_data data.
            all_data_rank0 P mk N w d recorded nhost = Inr all_data \<and>
            length all_data = nat nhost \<and>
            \<not> update_overwrites Map.empty all_data \<and>
            gather_rank0 P mk N w d recorded nhost = Inr data \<and>
            dom data = {0..N - 1} \<and>
            (\<forall>g\<in>{0..N - 1}. data g = Some (recorded (g mod nhost) g))"
  proof (intro exI conjI)
    show "all_data_rank0 P mk N w d recorded nhost = Inr (map Some (map ?LD ?js))" by (rule ad)
    show "length (map Some (map ?LD ?js)) = nat nhost" using len by (simp only: length_map)
    show "\<not> update_overwrites Map.empty (map Some (map ?LD ?js))" by (rule now)
    show "gather_rank0 P mk N w d recorded nhost
           = Inr (fold (\<lambda>pd data. data ++ pd) (map ?LD ?js) Map.empty)" by (rule g)
    show "dom (fold (\<lambda>pd data. data ++ pd) (map ?LD ?js) Map.empty) = {0..N - 1}" by (rule dm)
    show "\<forall>g\<in>{0..N - 1}.
      fold (\<lambda>pd data. data ++ pd) (map ?LD ?js) Map.empty g = Some (recorded (g mod nhost) g)"
      by (rule val)
  qed
  show ?thesis by (rule conjI [OF A B])
qed

theorem gather_spikes_complete_witness:
  "(1::int) \<le> 2 \<and>
   (\<exists>data. gather_rank0 (\<lambda>i. \<lparr>pc_id = i, pc_nhost = 2, gid2node = Map.empty\<rparr>)
              (\<lambda>g. \<lparr>cell_gid = g, spike_times = [], ncs = []\<rparr>) 3 (1::nat) 5
              (\<lambda>i g. [i, g]) 2 = Inr data \<and>
           dom data = {0, 1, 2} \<and>
           data 0 = Some [0, 0] \<and> data 1 = Some [1, 1] \<and> data 2 = Some [0, 2])"
proof -
  let ?P = "\<lambda>i::int. \<lparr>pc_id = i, pc_nhost = 2, gid2node = Map.empty\<rparr>"
  let ?mk = "\<lambda>g::int. \<lparr>cell_gid = g, spike_times = ([] :: int list), ncs = ([] :: nat netcon list)\<rparr>"
  let ?rec = "\<lambda>(i::int) (g::int). [i, g]"
  have h1: "(1::int) \<le> 2" by simp
  have h2: "\<forall>i\<in>{0..<2::int}. pc_id (?P i) = i \<and> pc_nhost (?P i) = 2" by simp
  have h3: "\<forall>g. cell_gid (?mk g) = g" by simp
  from gather_spikes_complete [OF h1 h2 h3, of 3 1 5 ?rec]
  obtain data where d: "gather_rank0 ?P ?mk 3 1 5 ?rec 2 = Inr data"
      "dom data = {0..3 - 1}" "\<forall>g\<in>{0..3 - 1}. data g = Some [g mod 2, g]"
    by blast
  have s: "{0..(3::int) - 1} = {0, 1, 2}" by auto
  have "data 0 = Some [0, 0]" "data 1 = Some [1, 1]" "data 2 = Some [0, 2]"
    using d(3) unfolding s by simp_all
  with d(1,2) h1 show ?thesis unfolding s by blast
qed

section \<open>Properties of the build script\<close>

subsection \<open>What echo writes\<close>

lemma echo_plain_verbatim:
  assumes "backslash \<notin> set t"
  shows "echo_plain t = (t, False)"
  using assms by (induction t) (auto simp: emit_def)

lemma sh_echo_verbatim:
  assumes "backslash \<notin> set t" "t \<noteq> ''-n''"
  shows "sh_echo t = t @ ''\<newline>''"
  using assms by (simp add: sh_echo_def echo_plain_verbatim)

lemma sh_echo_header: "sh_echo index_header = index_header @ ''\<newline>''"
  by (rule sh_echo_verbatim) (simp_all add: index_header_def backslash_def)

lemma sh_echo_stub:
  assumes "backslash \<notin> set b"
  shows "sh_echo (stub_text b) = stub_text b @ ''\<newline>''"
proof (rule sh_echo_verbatim)
  show "backslash \<notin> set (stub_text b)" using assms by (simp add: stub_text_def backslash_def)
  have "CHR ''\<newline>'' \<in> set (stub_text b)" by (simp add: stub_text_def)
  then show "stub_text b \<noteq> ''-n''" by auto
qed

lemma sh_echo_entry:
  assumes "backslash \<notin> set b"
  shows "sh_echo (index_entry b) = index_entry b @ ''\<newline>''"
proof (rule sh_echo_verbatim)
  show "backslash \<notin> set (index_entry b)" using assms by (simp add: index_entry_def backslash_def)
  show "index_entry b \<noteq> ''-n''" by (simp add: index_entry_def)
qed

text \<open>Some operands with a backslash, as dash writes them.\<close>

lemma sh_echo_escapes:
  "sh_echo (''a'' @ [backslash] @ ''cb'') = ''a''"
  "sh_echo (''a'' @ [backslash] @ ''tb'') = [CHR ''a'', CHR 0x09, CHR ''b'', CHR 0x0A]"
  "sh_echo (''a'' @ [backslash] @ ''qb'') = ''a'' @ [backslash] @ ''qb\<newline>''"
  "sh_echo (''a'' @ [backslash]) = ''a'' @ [backslash] @ ''\<newline>''"
  "sh_echo (''a'' @ [backslash, backslash] @ ''cb'') = ''a'' @ [backslash] @ ''cb\<newline>''"
  "sh_echo (''a'' @ [backslash] @ ''101b'') = ''aAb\<newline>''"
  "sh_echo (''a'' @ [backslash] @ ''0101b'') = ''aAb\<newline>''"
  "sh_echo (''a'' @ [backslash] @ ''1234'') = ''aS4\<newline>''"
  "sh_echo (''a'' @ [backslash] @ ''08'') = [CHR ''a'', CHR 0x00, CHR ''8'', CHR 0x0A]"
  "sh_echo (''a'' @ [backslash] @ ''777'') = [CHR ''a'', CHR 0xFF, CHR 0x0A]"
  "sh_echo (''a'' @ [backslash] @ ''1'' @ [backslash] @ ''c'') = [CHR ''a'', CHR 0x01]"
  by code_simp+

subsection \<open>The trace of a run\<close>

lemma loop_body_trace:
  assumes "loop_body E f s = (st, s')"
  shows "(st = 0 \<and> trace s' = trace s @ body_events f) \<or>
         (st \<noteq> 0 \<and> (\<exists>k<3. trace s' = trace s @ failed_pass f k st))"
proof -
  obtain st1 s1 where 1: "exec_nbconvert E f s = (st1, s1)" by (cases "exec_nbconvert E f s")
  then have t1: "trace s1 = trace s @ [(Nbconvert f, st1)]"
    by (auto simp: exec_nbconvert_def split: prod.splits)
  show ?thesis
  proof (cases "st1 = 0")
    case False
    then have "st = st1" "s' = s1" using assms 1 by (simp_all add: loop_body_def)
    then have "trace s' = trace s @ failed_pass f 0 st" using t1
      by (simp add: failed_pass_def body_events_def)
    moreover have "(0::nat) < 3" by simp
    ultimately show ?thesis using False \<open>st = st1\<close> by blast
  next
    case True
    let ?name = "strip_ext f"
    obtain st2 s2 where 2: "exec_echo E (stub_text ?name) (?name @ ''.rst'') s1 = (st2, s2)"
      by (cases "exec_echo E (stub_text ?name) (?name @ ''.rst'') s1")
    then have t2: "trace s2 = trace s1 @ [(Echo (stub_text ?name) (?name @ ''.rst''), st2)]"
      by (auto simp: exec_echo_def Let_def)
    show ?thesis
    proof (cases "st2 = 0")
      case False
      then have "st = st2" "s' = s2" using assms 1 2 True by (simp_all add: loop_body_def)
      then have "trace s' = trace s @ failed_pass f 1 st" using t1 t2 True
        by (simp add: failed_pass_def body_events_def)
      moreover have "(1::nat) < 3" by simp
      ultimately show ?thesis using False \<open>st = st2\<close> by blast
    next
      case st2: True
      have 3: "exec_echo_append E (index_entry ?name) ''index.rst'' s2 = (st, s')"
        using assms 1 2 True st2 by (simp add: loop_body_def)
      then have t3: "trace s' = trace s2 @ [(EchoAppend (index_entry ?name) ''index.rst'', st)]"
        by (auto simp: exec_echo_append_def Let_def)
      show ?thesis
      proof (cases "st = 0")
        case True
        then show ?thesis using t1 t2 t3 \<open>st1 = 0\<close> st2 by (simp add: body_events_def)
      next
        case False
        have "trace s' = trace s @ failed_pass f 2 st" using t1 t2 t3 \<open>st1 = 0\<close> st2
          by (simp add: failed_pass_def body_events_def)
        moreover have "(2::nat) < 3" by simp
        ultimately show ?thesis using False by blast
      qed
    qed
  qed
qed

lemma for_loop_trace:
  assumes "for_loop E ws s = (st, s')"
  shows "(st = 0 \<and> trace s' = trace s @ concat (map body_events ws)) \<or>
         (st \<noteq> 0 \<and> (\<exists>done f rest. ws = done @ f # rest \<and>
            (\<exists>k<3. trace s' = trace s @ concat (map body_events done) @ failed_pass f k st)))"
  using assms
proof (induction ws arbitrary: s)
  case Nil
  then show ?case by simp
next
  case (Cons w ws)
  obtain st1 s1 where b: "loop_body E w s = (st1, s1)" by (cases "loop_body E w s")
  show ?case
  proof (cases "st1 = 0")
    case False
    then have e: "st = st1" "s' = s1" using Cons.prems b by simp_all
    from loop_body_trace [OF b] False obtain k where
      k: "k < 3" "trace s1 = trace s @ failed_pass w k st1" by blast
    have "w # ws = [] @ w # ws" by simp
    moreover have "trace s' = trace s @ concat (map body_events []) @ failed_pass w k st"
      using k(2) e by simp
    ultimately show ?thesis using False e(1) k(1) by blast
  next
    case True
    then have r: "for_loop E ws s1 = (st, s')" using Cons.prems b by simp
    from loop_body_trace [OF b] True have t1: "trace s1 = trace s @ body_events w" by blast
    from Cons.IH [OF r] show ?thesis
    proof (elim disjE conjE exE)
      assume "st = 0" "trace s' = trace s1 @ concat (map body_events ws)"
      then show ?thesis using t1 by simp
    next
      fix dn f rest k
      assume a: "st \<noteq> 0" "ws = dn @ f # rest" "k < 3"
        "trace s' = trace s1 @ concat (map body_events dn) @ failed_pass f k st"
      have "w # ws = (w # dn) @ f # rest" using a(2) by simp
      moreover have "trace s' = trace s @ concat (map body_events (w # dn)) @ failed_pass f k st"
        using a(4) t1 by simp
      ultimately show ?thesis using a(1,3) by blast
    qed
  qed
qed

lemma build_rst_trace:
  assumes "build_rst E d = (st, s)"
  shows "(st \<noteq> 0 \<and> redirect E ''index.rst'' d = st \<and>
          trace s = [(Echo index_header ''index.rst'', st)]) \<or>
         (st = 0 \<and> redirect E ''index.rst'' d = 0 \<and>
          trace s = (Echo index_header ''index.rst'', 0)
              # concat (map body_events (glob_ipynb (AList.update ''index.rst'' (index_header @ ''\<newline>'') d)))) \<or>
         (st \<noteq> 0 \<and> redirect E ''index.rst'' d = 0 \<and> (\<exists>done f rest.
            glob_ipynb (AList.update ''index.rst'' (index_header @ ''\<newline>'') d) = done @ f # rest \<and>
            (\<exists>k<3. trace s = (Echo index_header ''index.rst'', 0)
                # concat (map body_events done) @ failed_pass f k st)))"
proof -
  let ?s = "\<lparr>files = d, trace = []\<rparr>"
  obtain st0 s0 where 0: "exec_echo E index_header ''index.rst'' ?s = (st0, s0)"
    by (cases "exec_echo E index_header ''index.rst'' ?s")
  then have t0: "trace s0 = [(Echo index_header ''index.rst'', st0)]"
    and r0: "redirect E ''index.rst'' d = st0"
    by (auto simp: exec_echo_def Let_def)
  show ?thesis
  proof (cases "st0 = 0")
    case False
    then have "st = st0" "s = s0" using assms 0 by (simp_all add: build_rst_def)
    then show ?thesis using t0 r0 False by simp
  next
    case True
    then have f0: "files s0 = AList.update ''index.rst'' (index_header @ ''\<newline>'') d"
      using 0 by (auto simp: exec_echo_def Let_def sh_echo_header)
    have "for_loop E (glob_ipynb (files s0)) s0 = (st, s)"
      using assms 0 True by (simp add: build_rst_def)
    from for_loop_trace [OF this] show ?thesis unfolding f0 t0 r0 True by auto
  qed
qed

lemma index_rst_not_notebook: "\<not> is_notebook ''index.rst''"
  by (simp add: is_notebook_def suffix_def)

lemma filter_fst_update:
  assumes "\<not> P k"
  shows "filter P (map fst (AList.update k v d)) = filter P (map fst d)"
  using assms by (induction d) auto

lemma notebooks_update:
  assumes "\<not> is_notebook k"
  shows "notebooks (AList.update k v d) = notebooks d"
  unfolding notebooks_def filter_fst_update [of is_notebook, OF assms] ..

lemma glob_ipynb_update:
  assumes "\<not> is_notebook k"
  shows "glob_ipynb (AList.update k v d) = glob_ipynb d"
  unfolding glob_ipynb_def notebooks_update [OF assms] ..

lemma glob_ipynb_nonempty: "glob_ipynb d \<noteq> []"
  by (simp add: glob_ipynb_def)

lemma build_rst_cases:
  assumes "build_rst E d = (st, s)"
  shows "(st \<noteq> 0 \<and> redirect E ''index.rst'' d = st \<and>
          trace s = [(Echo index_header ''index.rst'', st)]) \<or>
         (st = 0 \<and> redirect E ''index.rst'' d = 0 \<and>
          trace s = (Echo index_header ''index.rst'', 0)
              # concat (map body_events (glob_ipynb d))) \<or>
         (st \<noteq> 0 \<and> redirect E ''index.rst'' d = 0 \<and>
          (\<exists>done f rest. glob_ipynb d = done @ f # rest \<and>
            (\<exists>k<3. trace s = (Echo index_header ''index.rst'', 0)
                # concat (map body_events done) @ failed_pass f k st)))"
  using build_rst_trace [OF assms]
  unfolding glob_ipynb_update [OF index_rst_not_notebook] .

lemma body_events_ok: "\<forall>x\<in>set (concat (map body_events ws)). snd x = 0"
  by (auto simp: body_events_def)

lemma body_events_take_ok: "\<forall>x\<in>set (take k (body_events f)). snd x = 0"
proof
  fix x assume "x \<in> set (take k (body_events f))"
  then have "x \<in> set (body_events f)" by (rule in_set_takeD)
  then show "snd x = 0" by (auto simp: body_events_def)
qed

lemma last_status:
  assumes "build_rst E d = (st, s)"
  shows "\<exists>pre c. trace s = pre @ [(c, st)] \<and> (\<forall>x\<in>set pre. snd x = 0)"
  using build_rst_cases [OF assms]
proof (elim disjE conjE exE)
  assume "st \<noteq> 0" "trace s = [(Echo index_header ''index.rst'', st)]"
  then have "trace s = [] @ [(Echo index_header ''index.rst'', st)]" by simp
  then show ?thesis by (metis empty_iff list.set(1))
next
  assume a: "st = 0"
    "trace s = (Echo index_header ''index.rst'', 0) # concat (map body_events (glob_ipynb d))"
  obtain ws w where w: "glob_ipynb d = ws @ [w]"
    using glob_ipynb_nonempty [of d] by (metis rev_exhaust)
  let ?pre = "(Echo index_header ''index.rst'', 0) # concat (map body_events ws)
              @ take 2 (body_events w)"
  have "trace s = ?pre @ [(EchoAppend (index_entry (strip_ext w)) ''index.rst'', st)]"
    unfolding a w by (simp add: body_events_def)
  moreover have "\<forall>x\<in>set ?pre. snd x = 0"
    using body_events_ok [of ws] body_events_take_ok [of 2 w] by auto
  ultimately show ?thesis by blast
next
  fix dn f rest k
  assume a: "st \<noteq> 0" "glob_ipynb d = dn @ f # rest" "k < 3"
    "trace s = (Echo index_header ''index.rst'', 0)
        # concat (map body_events dn) @ failed_pass f k st"
  let ?pre = "(Echo index_header ''index.rst'', 0) # concat (map body_events dn)
              @ take k (body_events f)"
  have "trace s = ?pre @ [(fst (body_events f ! k), st)]"
    unfolding a by (simp add: failed_pass_def)
  moreover have "\<forall>x\<in>set ?pre. snd x = 0"
    using body_events_ok [of dn] body_events_take_ok [of k f] by auto
  ultimately show ?thesis by blast
qed

lemma failure_is_last:
  assumes "pre @ [(c, st)] = pre' @ (c', k) # post" "\<forall>x\<in>set pre. snd x = (0::nat)" "k \<noteq> 0"
  shows "post = [] \<and> st = k"
proof (cases post rule: rev_cases)
  case Nil
  then show ?thesis using assms(1) by simp
next
  case (snoc ys y)
  then have "pre @ [(c, st)] = (pre' @ (c', k) # ys) @ [y]" using assms(1) by simp
  then have "pre = pre' @ (c', k) # ys" by (simp only: append1_eq_conv)
  then have "(c', k) \<in> set pre" by simp
  then show ?thesis using assms(2,3) by auto
qed

text \<open>
  C3. Whatever the external commands do: the exit status of the script is the exit
  status of the last command it executed, and every command executed before that one
  succeeded. So a command that fails, the converter or an echo, is the last command
  executed, and its non-zero status is the exit status of the script.
\<close>

theorem build_rst_fail_fast:
  assumes "build_rst E d = (st, s)"
  shows "(\<exists>pre c. trace s = pre @ [(c, st)] \<and> (\<forall>x\<in>set pre. snd x = 0)) \<and>
         (\<forall>pre c k post. trace s = pre @ (c, k) # post \<and> k \<noteq> 0 \<longrightarrow> post = [] \<and> st = k \<and> st \<noteq> 0)"
proof -
  from last_status [OF assms] obtain pre c where
    l: "trace s = pre @ [(c, st)]" "\<forall>x\<in>set pre. snd x = 0" by blast
  have "post = [] \<and> st = k \<and> st \<noteq> 0" if "trace s = pre' @ (c', k) # post" "k \<noteq> 0"
    for pre' c' k post
    using failure_is_last [of pre c st pre' c' k post] l that by auto
  then show ?thesis using l by blast
qed

theorem build_rst_fail_fast_witness:
  "fst (build_rst \<lparr>nbconvert = (\<lambda>f d. if f = ''b.ipynb'' then (3, d) else (0, d)),
                    redirect = (\<lambda>target d. 0)\<rparr>
          [(''a.ipynb'', ''{}''), (''b.ipynb'', ''{}''), (''c.ipynb'', ''{}'')]) = 3 \<and>
   (\<exists>pre c. trace (snd (build_rst \<lparr>nbconvert = (\<lambda>f d. if f = ''b.ipynb'' then (3, d) else (0, d)),
                                    redirect = (\<lambda>target d. 0)\<rparr>
          [(''a.ipynb'', ''{}''), (''b.ipynb'', ''{}''), (''c.ipynb'', ''{}'')])) = pre @ [(c, 3)] \<and>
      (\<forall>x\<in>set pre. snd x = 0))"
proof -
  let ?E = "\<lparr>nbconvert = (\<lambda>f d. if f = ''b.ipynb'' then (3, d) else (0::nat, d::dir)),
             redirect = (\<lambda>target d. 0)\<rparr>"
  let ?d = "[(''a.ipynb'', ''{}''), (''b.ipynb'', ''{}''), (''c.ipynb'', ''{}'')]"
  have v: "fst (build_rst ?E ?d) = 3" by code_simp
  have "build_rst ?E ?d = (fst (build_rst ?E ?d), snd (build_rst ?E ?d))" by simp
  from build_rst_fail_fast [OF this]
  have "\<exists>pre c. trace (snd (build_rst ?E ?d)) = pre @ [(c, fst (build_rst ?E ?d))] \<and>
          (\<forall>x\<in>set pre. snd x = 0)" by blast
  then show ?thesis unfolding v using v by blast
qed

subsection \<open>The files of a run are those its echoes wrote\<close>

lemma rst_eq_refl: "rst_eq m m"
  by (simp add: rst_eq_def)

lemma rst_eq_trans: "rst_eq m m' \<Longrightarrow> rst_eq m' m'' \<Longrightarrow> rst_eq m m''"
  by (simp add: rst_eq_def)

lemma replay_event_rst_eq:
  assumes "rst_eq m m'"
  shows "rst_eq (replay_event e m) (replay_event e m')"
proof (cases e)
  case (Pair c st)
  show ?thesis
  proof (cases c)
    case (Nbconvert f)
    then show ?thesis using assms Pair by simp
  next
    case (Echo msg target)
    then show ?thesis using assms Pair by (simp add: rst_eq_def)
  next
    case (EchoAppend msg target)
    then show ?thesis using assms Pair by (simp add: rst_eq_def)
  qed
qed

lemma replay_rst_eq:
  assumes "rst_eq m m'"
  shows "rst_eq (replay evs m) (replay evs m')"
  using assms unfolding replay_def
  by (induction evs arbitrary: m m') (simp_all add: replay_event_rst_eq)

lemma replay_append: "replay (evs @ evs') m = replay evs' (replay evs m)"
  by (simp add: replay_def)

lemma follows_refl: "follows s s"
  unfolding follows_def by (rule exI [of _ "[]"]) (simp add: replay_def rst_eq_refl)

lemma follows_trans:
  assumes "follows s s'" "follows s' s''"
  shows "follows s s''"
proof -
  from assms(1) obtain e1 where 1: "trace s' = trace s @ e1"
    "rst_eq (map_of (files s')) (replay e1 (map_of (files s)))" unfolding follows_def by blast
  from assms(2) obtain e2 where 2: "trace s'' = trace s' @ e2"
    "rst_eq (map_of (files s'')) (replay e2 (map_of (files s')))" unfolding follows_def by blast
  have "rst_eq (replay e2 (map_of (files s'))) (replay e2 (replay e1 (map_of (files s))))"
    by (rule replay_rst_eq [OF 1(2)])
  with 2(2) have "rst_eq (map_of (files s'')) (replay (e1 @ e2) (map_of (files s)))"
    unfolding replay_append by (rule rst_eq_trans)
  moreover have "trace s'' = trace s @ (e1 @ e2)" using 1(1) 2(1) by simp
  ultimately show ?thesis unfolding follows_def by blast
qed

lemma follows_nbconvert:
  assumes "keeps_rst E" "exec_nbconvert E f s = (st, s')"
  shows "follows s s'"
proof -
  have t: "trace s' = trace s @ [(Nbconvert f, st)]" and d: "files s' = snd (nbconvert E f (files s))"
    using assms(2) by (auto simp: exec_nbconvert_def split: prod.splits)
  have "rst_eq (map_of (files s')) (map_of (files s))"
    unfolding d rst_eq_def using assms(1) by (simp add: keeps_rst_def)
  then have "rst_eq (map_of (files s')) (replay [(Nbconvert f, st)] (map_of (files s)))"
    by (simp add: replay_def)
  with t show ?thesis unfolding follows_def by blast
qed

lemma follows_echo:
  assumes "exec_echo E text target s = (st, s')"
  shows "follows s s'"
proof -
  have t: "trace s' = trace s @ [(Echo text target, st)]"
    using assms by (auto simp: exec_echo_def Let_def)
  have "map_of (files s') = replay [(Echo text target, st)] (map_of (files s))"
    using assms by (auto simp: exec_echo_def Let_def replay_def update_conv')
  then have "rst_eq (map_of (files s')) (replay [(Echo text target, st)] (map_of (files s)))"
    by (simp add: rst_eq_refl)
  with t show ?thesis unfolding follows_def by blast
qed

lemma follows_echo_append:
  assumes "exec_echo_append E text target s = (st, s')"
  shows "follows s s'"
proof -
  have t: "trace s' = trace s @ [(EchoAppend text target, st)]"
    using assms by (auto simp: exec_echo_append_def Let_def)
  have "map_of (files s') = replay [(EchoAppend text target, st)] (map_of (files s))"
    using assms by (auto simp: exec_echo_append_def Let_def replay_def update_conv')
  then have "rst_eq (map_of (files s')) (replay [(EchoAppend text target, st)] (map_of (files s)))"
    by (simp add: rst_eq_refl)
  with t show ?thesis unfolding follows_def by blast
qed

lemma follows_loop_body:
  assumes "keeps_rst E" "loop_body E f s = (st, s')"
  shows "follows s s'"
proof -
  obtain st1 s1 where 1: "exec_nbconvert E f s = (st1, s1)" by (cases "exec_nbconvert E f s")
  note f1 = follows_nbconvert [OF assms(1) 1]
  show ?thesis
  proof (cases "st1 = 0")
    case False
    then have "s' = s1" using assms(2) 1 by (simp add: loop_body_def)
    then show ?thesis using f1 by simp
  next
    case True
    let ?name = "strip_ext f"
    obtain st2 s2 where 2: "exec_echo E (stub_text ?name) (?name @ ''.rst'') s1 = (st2, s2)"
      by (cases "exec_echo E (stub_text ?name) (?name @ ''.rst'') s1")
    note f2 = follows_trans [OF f1 follows_echo [OF 2]]
    show ?thesis
    proof (cases "st2 = 0")
      case False
      then have "s' = s2" using assms(2) 1 2 True by (simp add: loop_body_def)
      then show ?thesis using f2 by simp
    next
      case st2: True
      have "exec_echo_append E (index_entry ?name) ''index.rst'' s2 = (st, s')"
        using assms(2) 1 2 True st2 by (simp add: loop_body_def)
      from follows_trans [OF f2 follows_echo_append [OF this]] show ?thesis .
    qed
  qed
qed

lemma follows_for_loop:
  assumes "keeps_rst E" "for_loop E ws s = (st, s')"
  shows "follows s s'"
  using assms(2)
proof (induction ws arbitrary: s)
  case Nil
  then show ?case by (simp add: follows_refl)
next
  case (Cons w ws)
  obtain st1 s1 where b: "loop_body E w s = (st1, s1)" by (cases "loop_body E w s")
  note f1 = follows_loop_body [OF assms(1) b]
  show ?case
  proof (cases "st1 = 0")
    case False
    then have "s' = s1" using Cons.prems b by simp
    then show ?thesis using f1 by simp
  next
    case True
    then have "for_loop E ws s1 = (st, s')" using Cons.prems b by simp
    from follows_trans [OF f1 Cons.IH [OF this]] show ?thesis .
  qed
qed

lemma build_rst_replay:
  assumes "keeps_rst E" "build_rst E d = (st, s)"
  shows "rst_eq (map_of (files s)) (replay (trace s) (map_of d))"
proof -
  let ?s = "\<lparr>files = d, trace = []\<rparr>"
  obtain st0 s0 where 0: "exec_echo E index_header ''index.rst'' ?s = (st0, s0)"
    by (cases "exec_echo E index_header ''index.rst'' ?s")
  note f0 = follows_echo [OF 0]
  have "follows ?s s"
  proof (cases "st0 = 0")
    case False
    then have "s = s0" using assms(2) 0 by (simp add: build_rst_def)
    then show ?thesis using f0 by simp
  next
    case True
    then have "for_loop E (glob_ipynb (files s0)) s0 = (st, s)"
      using assms(2) 0 by (simp add: build_rst_def)
    from follows_trans [OF f0 follows_for_loop [OF assms(1) this]] show ?thesis .
  qed
  then show ?thesis by (simp add: follows_def)
qed

subsection \<open>Names\<close>

lemma strip_ext_ipynb: "strip_ext (stem @ ''.ipynb'') = stem"
  by (simp add: strip_ext_def)

lemma is_notebook_stem:
  assumes "is_notebook f"
  shows "\<exists>stem. f = stem @ ''.ipynb''"
  using assms by (auto simp: is_notebook_def suffix_def)

lemma stub_name_index: "b @ ''.rst'' = ''index.rst'' \<longleftrightarrow> b = ''index''"
proof -
  have "''index.rst'' = ''index'' @ ''.rst''" by simp
  then show ?thesis by (simp only: append_same_eq)
qed

lemma rst_not_notebook: "\<not> is_notebook (b @ ''.rst'')"
proof
  assume "is_notebook (b @ ''.rst'')"
  then obtain stem where "b @ ''.rst'' = stem @ ''.ipynb''" using is_notebook_stem by blast
  then have "last (b @ ''.rst'') = last (stem @ ''.ipynb'')" by simp
  then show False by simp
qed


lemma strip_ext_index:
  assumes "is_notebook f"
  shows "strip_ext f = ''index'' \<longleftrightarrow> f = ''index.ipynb''"
proof -
  from assms obtain a where "f = a @ ''.ipynb''" using is_notebook_stem by blast
  moreover have "''index.ipynb'' = ''index'' @ ''.ipynb''" by simp
  ultimately show ?thesis by (simp only: strip_ext_ipynb append_same_eq)
qed

subsection \<open>Replaying the echoes of the script\<close>

lemma replay_snoc: "replay (evs @ [e]) m = replay_event e (replay evs m)"
  by (simp add: replay_def)

lemma replay_event_local:
  assumes "m p = m' p"
  shows "replay_event e m p = replay_event e m' p"
proof (cases e)
  case (Pair c st)
  then show ?thesis using assms by (cases c) auto
qed

lemma replay_local:
  assumes "m p = m' p"
  shows "replay evs m p = replay evs m' p"
  using assms
proof (induction evs arbitrary: m m')
  case Nil
  then show ?case by (simp add: replay_def)
next
  case (Cons e evs)
  have "replay_event e m p = replay_event e m' p" 
    using Cons.prems by (rule replay_event_local [of m p m' e])
  then have "replay evs (replay_event e m) p = replay evs (replay_event e m') p" by (rule Cons.IH)
  then show ?case by (simp add: replay_def)
qed

lemma replay_stub:
  assumes "\<forall>e\<in>set evs. script_event e" "b \<noteq> ''index''"
  shows "replay evs m (b @ ''.rst'') =
         (if (Echo (stub_text b) (b @ ''.rst''), 0) \<in> set evs
          then Some (sh_echo (stub_text b)) else m (b @ ''.rst''))"
  using assms(1)
proof (induction evs rule: rev_induct)
  case Nil
  then show ?case by (simp add: replay_def)
next
  case (snoc e evs)
  let ?w = "(Echo (stub_text b) (b @ ''.rst''), 0::nat)"
  from snoc have IH: "replay evs m (b @ ''.rst'') =
         (if ?w \<in> set evs then Some (sh_echo (stub_text b)) else m (b @ ''.rst''))"
    and e: "script_event e" by simp_all
  have ni: "b @ ''.rst'' \<noteq> ''index.rst''" using assms(2) stub_name_index [of b] by blast
  show ?case
  proof (cases "e = ?w")
    case True
    then have "replay_event e (replay evs m) (b @ ''.rst'') = Some (sh_echo (stub_text b))"
      by simp
    then show ?thesis unfolding replay_snoc using True by simp
  next
    case False
    have "replay_event e (replay evs m) (b @ ''.rst'') = replay evs m (b @ ''.rst'')"
    proof (cases e)
      case (Pair c st)
      show ?thesis
      proof (cases c)
        case (Nbconvert f)
        then show ?thesis using Pair by simp
      next
        case (Echo msg target)
        have "\<not> (target = b @ ''.rst'' \<and> st = 0)"
        proof
          assume a: "target = b @ ''.rst'' \<and> st = 0"
          then have "msg = stub_text b" using e ni unfolding Pair Echo by auto
          then show False using False a unfolding Pair Echo by simp
        qed
        then show ?thesis unfolding Pair Echo by auto
      next
        case (EchoAppend msg target)
        then have "target = ''index.rst''" using e unfolding Pair by simp
        then show ?thesis unfolding Pair EchoAppend using ni by simp
      qed
    qed
    moreover have "(?w \<in> set (evs @ [e])) = (?w \<in> set evs)" using False by auto
    ultimately show ?thesis unfolding replay_snoc using IH by (simp only:)
  qed
qed

lemma replay_index_entries:
  assumes "\<forall>f\<in>set ws. strip_ext f \<noteq> ''index''" "m ''index.rst'' = Some c"
  shows "replay (concat (map body_events ws)) m ''index.rst'' =
         Some (c @ concat (map (\<lambda>f. sh_echo (index_entry (strip_ext f))) ws))"
  using assms
proof (induction ws arbitrary: m c)
  case Nil
  then show ?case by (simp add: replay_def)
next
  case (Cons w ws)
  have ni: "strip_ext w @ ''.rst'' \<noteq> ''index.rst''"
    using Cons.prems(1) stub_name_index [of "strip_ext w"] by simp
  have "replay (body_events w) m ''index.rst'' = Some (c @ sh_echo (index_entry (strip_ext w)))"
    using Cons.prems(2) ni by (simp add: replay_def body_events_def)
  moreover have "\<forall>f\<in>set ws. strip_ext f \<noteq> ''index''" using Cons.prems(1) by simp
  ultimately have "replay (concat (map body_events ws)) (replay (body_events w) m) ''index.rst''
      = Some ((c @ sh_echo (index_entry (strip_ext w)))
              @ concat (map (\<lambda>f. sh_echo (index_entry (strip_ext f))) ws))"
    by (rule Cons.IH [rotated])
  then show ?case by (simp add: replay_append)
qed

lemma body_events_script: "\<forall>e\<in>set (concat (map body_events ws)). script_event e"
  by (auto simp: body_events_def)

lemma failed_pass_script:
  assumes "k < 3"
  shows "\<forall>e\<in>set (failed_pass f k st). script_event e"
proof -
  have "k = 0 \<or> k = 1 \<or> k = 2" using assms by auto
  then show ?thesis by (auto simp: failed_pass_def body_events_def)
qed

lemma build_rst_script_events:
  assumes "build_rst E d = (st, s)"
  shows "\<forall>e\<in>set (trace s). script_event e"
  using build_rst_cases [OF assms]
proof (elim disjE conjE exE)
  assume "trace s = [(Echo index_header ''index.rst'', st)]"
  then show ?thesis by simp
next
  assume "trace s = (Echo index_header ''index.rst'', 0) # concat (map body_events (glob_ipynb d))"
  then show ?thesis using body_events_script [of "glob_ipynb d"] by simp
next
  fix dn f rest k
  assume "k < 3" "trace s = (Echo index_header ''index.rst'', 0)
        # concat (map body_events dn) @ failed_pass f k st"
  then show ?thesis using body_events_script [of dn] failed_pass_script [of k f st] by auto
qed

subsection \<open>Stub files and index file\<close>

lemma written_body_events:
  "set (written (concat (map body_events ws)))
   = (\<lambda>f. strip_ext f @ ''.rst'') ` set ws \<union> (if ws = [] then {} else {''index.rst''})"
  by (induction ws) (auto simp: written_def body_events_def)

lemma notebooks_set: "set (notebooks d) = {f \<in> fst ` set d. is_notebook f}"
  by (auto simp: notebooks_def)






subsection \<open>A notebook named index\<close>

text \<open>
  C2, at a directory whose only notebook is \<open>index.ipynb\<close>: the run succeeds, and
  \<open>index.rst\<close> ends as the stub of that notebook followed by its index entry, with no
  table-of-contents directive.
\<close>

theorem index_rst_overwritten_by_stub:
  "fst (build_rst converting_env [(''index.ipynb'', ''{}'')]) = 0 \<and>
   map_of (files (snd (build_rst converting_env [(''index.ipynb'', ''{}'')]))) ''index.rst''
     = Some (unlines [''index'', ''----------------'', '''', ''.. raw:: html'',
                      ''   :file: index.html'', '''', ''   index''])"
  by code_simp

text \<open>
  C5, at a directory with the notebooks \<open>a.ipynb\<close>, \<open>index.ipynb\<close> and
  \<open>z.ipynb\<close>: the run succeeds and all three passes are complete, the entry of
  \<open>a\<close> was appended, and yet \<open>index.rst\<close> ends without it.
\<close>

theorem index_rst_loses_entries:
  "fst (build_rst converting_env
          [(''a.ipynb'', ''{}''), (''index.ipynb'', ''{}''), (''z.ipynb'', ''{}'')]) = 0 \<and>
   (EchoAppend ''   a'' ''index.rst'', 0) \<in> set (trace (snd (build_rst converting_env
          [(''a.ipynb'', ''{}''), (''index.ipynb'', ''{}''), (''z.ipynb'', ''{}'')]))) \<and>
   map_of (files (snd (build_rst converting_env
          [(''a.ipynb'', ''{}''), (''index.ipynb'', ''{}''), (''z.ipynb'', ''{}'')]))) ''index.rst''
     = Some (unlines [''index'', ''----------------'', '''', ''.. raw:: html'',
                      ''   :file: index.html'', '''', ''   index'', ''   z''])"
  by code_simp

subsection \<open>A directory without notebooks\<close>

lemma pattern_is_notebook: "is_notebook ''*.ipynb''"
  by (simp add: is_notebook_def suffix_def prefix_def)

text \<open>
  C9. In a directory without notebooks the pattern stays as it is, and it names no file
  of the directory. When the index can be written and the converter fails on that name
  with status \<open>k\<close>, the script runs the converter once, on \<open>*.ipynb\<close>, and exits with
  status \<open>k\<close>; it has written \<open>index.rst\<close> and nothing else, and \<open>index.rst\<close> holds
  the header alone (the converter leaving \<open>.rst\<close> files alone). The stubs-and-index
  property does not hold of this run.
\<close>

theorem no_notebooks_run:
  assumes "notebooks d = []" "redirect E ''index.rst'' d = 0" "keeps_rst E"
    and "nbconvert E ''*.ipynb'' (AList.update ''index.rst'' (index_header @ ''\<newline>'') d) = (k, d')"
    and "k \<noteq> 0"
  shows "glob_ipynb d = [''*.ipynb''] \<and> ''*.ipynb'' \<notin> fst ` set d \<and>
         (\<exists>s. build_rst E d = (k, s) \<and>
              trace s = [(Echo index_header ''index.rst'', 0), (Nbconvert ''*.ipynb'', k)] \<and>
              written (trace s) = [''index.rst''] \<and>
              map_of (files s) ''index.rst'' = Some (index_header @ ''\<newline>'')) \<and>
         \<not> stubs_and_index E d"
proof -
  let ?d0 = "AList.update ''index.rst'' (index_header @ ''\<newline>'') d"
  let ?s = "\<lparr>files = d', trace = [(Echo index_header ''index.rst'', 0), (Nbconvert ''*.ipynb'', k)]\<rparr>"
  have g: "glob_ipynb d = [''*.ipynb'']" using assms(1) by (simp add: glob_ipynb_def)
  have g0: "glob_ipynb ?d0 = [''*.ipynb'']"
    unfolding glob_ipynb_update [OF index_rst_not_notebook] by (rule g)
  have n: "''*.ipynb'' \<notin> fst ` set d"
  proof
    assume "''*.ipynb'' \<in> fst ` set d"
    then have "''*.ipynb'' \<in> set (notebooks d)"
      unfolding notebooks_set using pattern_is_notebook by simp
    then show False using assms(1) by simp
  qed
  have r: "build_rst E d = (k, ?s)"
    using assms(2,4,5) g0
    by (simp add: build_rst_def exec_echo_def loop_body_def exec_nbconvert_def sh_echo_header)
  have "suffix ''.rst'' ''index.rst''" by (simp add: suffix_def)
  then have "map_of d' ''index.rst'' = map_of ?d0 ''index.rst''"
    using assms(3,4) unfolding keeps_rst_def by (metis snd_conv)
  then have c: "map_of (files ?s) ''index.rst'' = Some (index_header @ ''\<newline>'')"
    by (simp add: update_conv')
  have w: "written (trace ?s) = [''index.rst'']" by (simp add: written_def)
  have f: "\<not> stubs_and_index E d" unfolding stubs_and_index_def r using assms(5) by simp
  have "\<exists>s. build_rst E d = (k, s) \<and>
              trace s = [(Echo index_header ''index.rst'', 0), (Nbconvert ''*.ipynb'', k)] \<and>
              written (trace s) = [''index.rst''] \<and>
              map_of (files s) ''index.rst'' = Some (index_header @ ''\<newline>'')"
    using r c w by (intro exI [of _ ?s]) simp
  with g n f show ?thesis by blast
qed

lemma html_not_rst:
  assumes "suffix ''.rst'' p"
  shows "b @ ''.html'' \<noteq> p"
proof
  assume "b @ ''.html'' = p"
  with assms obtain zs where "b @ ''.html'' = zs @ ''.rst''" by (auto simp: suffix_def)
  then have "last (b @ ''.html'') = last (zs @ ''.rst'')" by simp
  then show False by simp
qed

lemma html_not_notebook: "\<not> is_notebook (b @ ''.html'')"
proof
  assume "is_notebook (b @ ''.html'')"
  then obtain stem where "b @ ''.html'' = stem @ ''.ipynb''" using is_notebook_stem by blast
  then have "last (b @ ''.html'') = last (stem @ ''.ipynb'')" by simp
  then show False by simp
qed

lemma converting_env_keeps_rst: "keeps_rst converting_env"
  unfolding keeps_rst_def converting_env_def
  using html_not_rst by (auto simp: update_conv')

lemma converting_env_keeps_notebooks: "keeps_notebooks converting_env"
  unfolding keeps_notebooks_def converting_env_def
  by (simp add: notebooks_update [OF html_not_notebook])

theorem no_notebooks_run_witness:
  "notebooks [(''README'', '''')] = [] \<and>
   build_rst converting_env [(''README'', '''')]
     = (255, \<lparr>files = [(''README'', ''''), (''index.rst'', index_header @ ''\<newline>'')],
              trace = [(Echo index_header ''index.rst'', 0), (Nbconvert ''*.ipynb'', 255)]\<rparr>) \<and>
   \<not> stubs_and_index converting_env [(''README'', '''')]"
proof -
  let ?d = "[(''README'', '''')]"
  let ?d' = "[(''README'', ''''), (''index.rst'', index_header @ ''\<newline>'')]"
  have h1: "notebooks ?d = []" by code_simp
  have h2: "redirect converting_env ''index.rst'' ?d = 0" by (simp add: converting_env_def)
  have h4: "nbconvert converting_env ''*.ipynb''
              (AList.update ''index.rst'' (index_header @ ''\<newline>'') ?d) = (255, ?d')"
    by (simp add: converting_env_def)
  have h5: "(255::nat) \<noteq> 0" by simp
  have r: "build_rst converting_env ?d
     = (255, \<lparr>files = ?d',
              trace = [(Echo index_header ''index.rst'', 0), (Nbconvert ''*.ipynb'', 255)]\<rparr>)"
    by code_simp
  from no_notebooks_run [OF h1 h2 converting_env_keeps_rst h4 h5] h1 r show ?thesis by blast
qed

subsection \<open>Running the script again\<close>

lemma notebooks_exec_echo:
  assumes "exec_echo E msg target s = (st, s')" "\<not> is_notebook target"
  shows "notebooks (files s') = notebooks (files s)"
  using assms by (auto simp: exec_echo_def Let_def notebooks_update)

lemma notebooks_exec_echo_append:
  assumes "exec_echo_append E msg target s = (st, s')" "\<not> is_notebook target"
  shows "notebooks (files s') = notebooks (files s)"
  using assms by (auto simp: exec_echo_append_def Let_def notebooks_update)

lemma notebooks_exec_nbconvert:
  assumes "keeps_notebooks E" "exec_nbconvert E f s = (st, s')"
  shows "notebooks (files s') = notebooks (files s)"
proof -
  have "files s' = snd (nbconvert E f (files s))"
    using assms(2) by (auto simp: exec_nbconvert_def split: prod.splits)
  then show ?thesis using assms(1) by (simp add: keeps_notebooks_def)
qed

lemma notebooks_loop_body:
  assumes "keeps_notebooks E" "loop_body E f s = (st, s')"
  shows "notebooks (files s') = notebooks (files s)"
proof -
  obtain st1 s1 where 1: "exec_nbconvert E f s = (st1, s1)" by (cases "exec_nbconvert E f s")
  note n1 = notebooks_exec_nbconvert [OF assms(1) 1]
  show ?thesis
  proof (cases "st1 = 0")
    case False
    then have "s' = s1" using assms(2) 1 by (simp add: loop_body_def)
    then show ?thesis using n1 by simp
  next
    case True
    let ?name = "strip_ext f"
    obtain st2 s2 where 2: "exec_echo E (stub_text ?name) (?name @ ''.rst'') s1 = (st2, s2)"
      by (cases "exec_echo E (stub_text ?name) (?name @ ''.rst'') s1")
    note n2 = notebooks_exec_echo [OF 2 rst_not_notebook]
    show ?thesis
    proof (cases "st2 = 0")
      case False
      then have "s' = s2" using assms(2) 1 2 True by (simp add: loop_body_def)
      then show ?thesis using n1 n2 by simp
    next
      case st2: True
      have "exec_echo_append E (index_entry ?name) ''index.rst'' s2 = (st, s')"
        using assms(2) 1 2 True st2 by (simp add: loop_body_def)
      from notebooks_exec_echo_append [OF this index_rst_not_notebook] show ?thesis
        using n1 n2 by simp
    qed
  qed
qed

lemma notebooks_for_loop:
  assumes "keeps_notebooks E" "for_loop E ws s = (st, s')"
  shows "notebooks (files s') = notebooks (files s)"
  using assms(2)
proof (induction ws arbitrary: s)
  case Nil
  then show ?case by simp
next
  case (Cons w ws)
  obtain st1 s1 where b: "loop_body E w s = (st1, s1)" by (cases "loop_body E w s")
  note n1 = notebooks_loop_body [OF assms(1) b]
  show ?case
  proof (cases "st1 = 0")
    case False
    then have "s' = s1" using Cons.prems b by simp
    then show ?thesis using n1 by simp
  next
    case True
    then have "for_loop E ws s1 = (st, s')" using Cons.prems b by simp
    from Cons.IH [OF this] show ?thesis using n1 by simp
  qed
qed

lemma notebooks_build_rst:
  assumes "keeps_notebooks E" "build_rst E d = (st, s)"
  shows "notebooks (files s) = notebooks d"
proof -
  let ?s = "\<lparr>files = d, trace = []\<rparr>"
  obtain st0 s0 where 0: "exec_echo E index_header ''index.rst'' ?s = (st0, s0)"
    by (cases "exec_echo E index_header ''index.rst'' ?s")
  from notebooks_exec_echo [OF 0 index_rst_not_notebook]
  have n0: "notebooks (files s0) = notebooks d" by simp
  show ?thesis
  proof (cases "st0 = 0")
    case False
    then have "s = s0" using assms(2) 0 by (simp add: build_rst_def)
    then show ?thesis using n0 by simp
  next
    case True
    then have "for_loop E (glob_ipynb (files s0)) s0 = (st, s)"
      using assms(2) 0 by (simp add: build_rst_def)
    from notebooks_for_loop [OF assms(1) this] show ?thesis using n0 by simp
  qed
qed

lemma replay_successful_run:
  assumes "x p = replay ((Echo index_header ''index.rst'', 0) # concat (map body_events ws)) m p"
    and "suffix ''.rst'' p"
  shows "replay ((Echo index_header ''index.rst'', 0) # concat (map body_events ws)) x p
         = replay ((Echo index_header ''index.rst'', 0) # concat (map body_events ws)) m p"
proof -
  let ?T = "(Echo index_header ''index.rst'', 0) # concat (map body_events ws)"
  from assms(2) obtain b where p: "p = b @ ''.rst''" by (auto simp: suffix_def)
  show ?thesis
  proof (cases "b = ''index''")
    case True
    then have pi: "p = ''index.rst''" using p by simp
    have "replay_event (Echo index_header ''index.rst'', 0) x p
          = replay_event (Echo index_header ''index.rst'', 0) m p" unfolding pi by simp
    then have "replay (concat (map body_events ws)) (replay_event (Echo index_header ''index.rst'', 0) x) p
             = replay (concat (map body_events ws)) (replay_event (Echo index_header ''index.rst'', 0) m) p"
      by (rule replay_local)
    then show ?thesis by (simp add: replay_def)
  next
    case False
    have se: "\<forall>e\<in>set ?T. script_event e" using body_events_script [of ws] by simp
    let ?w = "(Echo (stub_text b) (b @ ''.rst''), 0::nat)"
    have a: "replay ?T x (b @ ''.rst'')
             = (if ?w \<in> set ?T then Some (sh_echo (stub_text b)) else x (b @ ''.rst''))"
      by (rule replay_stub [OF se False])
    have b: "replay ?T m (b @ ''.rst'')
             = (if ?w \<in> set ?T then Some (sh_echo (stub_text b)) else m (b @ ''.rst''))"
      by (rule replay_stub [OF se False])
    from assms(1) have c: "x (b @ ''.rst'') = replay ?T m (b @ ''.rst'')" unfolding p .
    show ?thesis
    proof (cases "?w \<in> set ?T")
      case True
      then show ?thesis unfolding p a b by (simp only: if_True)
    next
      case False
      then have "replay ?T x (b @ ''.rst'') = x (b @ ''.rst'')" unfolding a by (simp only: if_False)
      then show ?thesis unfolding p using c by simp
    qed
  qed
qed

lemma written_snoc: "written (tr @ [e]) = written tr @ written_by e"
  by (simp add: written_def)

lemma replay_event_keeps:
  assumes "m p \<noteq> None"
  shows "replay_event e m p \<noteq> None"
proof (cases e)
  case (Pair c st)
  then show ?thesis using assms by (cases c) auto
qed

lemma replay_event_written:
  assumes "p \<in> set (written_by e)"
  shows "replay_event e m p \<noteq> None"
proof (cases e)
  case (Pair c st)
  then show ?thesis using assms by (cases c) (auto split: if_splits)
qed

lemma replay_written_some:
  assumes "p \<in> set (written tr)"
  shows "replay tr m p \<noteq> None"
  using assms
proof (induction tr rule: rev_induct)
  case Nil
  then show ?case by (simp add: written_def)
next
  case (snoc e tr)
  show ?case
  proof (cases "p \<in> set (written_by e)")
    case True
    then show ?thesis unfolding replay_snoc by (rule replay_event_written)
  next
    case False
    then have "p \<in> set (written tr)" using snoc.prems by (simp add: written_snoc)
    then have "replay tr m p \<noteq> None" by (rule snoc.IH)
    then show ?thesis unfolding replay_snoc by (rule replay_event_keeps)
  qed
qed

lemma written_stub_event:
  assumes "\<forall>e\<in>set tr. script_event e" "p \<in> set (written tr)" "p \<noteq> ''index.rst''"
  shows "\<exists>b. p = b @ ''.rst'' \<and> b \<noteq> ''index'' \<and> (Echo (stub_text b) p, 0) \<in> set tr"
proof -
  from assms(2) obtain e where e: "e \<in> set tr" "p \<in> set (written_by e)"
    by (auto simp: written_def)
  then have se: "script_event e" using assms(1) by blast
  obtain c st where p: "e = (c, st)" by (cases e)
  show ?thesis
  proof (cases c)
    case (Nbconvert f)
    then show ?thesis using e(2) p by simp
  next
    case (Echo msg target)
    then have 1: "st = 0" "target = p" using e(2) p by (auto split: if_splits)
    then obtain b where b: "p = b @ ''.rst''" "msg = stub_text b"
      using se assms(3) unfolding p Echo by auto
    have "b \<noteq> ''index''" using assms(3) b(1) by auto
    moreover have "(Echo (stub_text b) p, 0) \<in> set tr" using e(1) p Echo 1 b(2) by simp
    ultimately show ?thesis using b(1) by blast
  next
    case (EchoAppend msg target)
    then have "target = p" using e(2) p by (auto split: if_splits)
    moreover have "target = ''index.rst''" using se unfolding p EchoAppend by simp
    ultimately show ?thesis using assms(3) by simp
  qed
qed

lemma replay_from_scratch:
  assumes "\<forall>e\<in>set tr. script_event e" "tr = (Echo index_header ''index.rst'', 0) # rest"
    and "p \<in> set (written tr)"
  shows "replay tr m p = replay tr m' p"
proof (cases "p = ''index.rst''")
  case True
  have "replay_event (Echo index_header ''index.rst'', 0) m p
        = replay_event (Echo index_header ''index.rst'', 0) m' p" unfolding True by simp
  then have "replay rest (replay_event (Echo index_header ''index.rst'', 0) m) p
           = replay rest (replay_event (Echo index_header ''index.rst'', 0) m') p"
    by (rule replay_local)
  then show ?thesis unfolding assms(2) by (simp add: replay_def)
next
  case False
  from written_stub_event [OF assms(1,3) False] obtain b where
    b: "p = b @ ''.rst''" "b \<noteq> ''index''" "(Echo (stub_text b) p, 0) \<in> set tr" by blast
  have "replay tr m (b @ ''.rst'') = Some (sh_echo (stub_text b))"
    using replay_stub [OF assms(1) b(2), of m] b(1,3) by simp
  moreover have "replay tr m' (b @ ''.rst'') = Some (sh_echo (stub_text b))"
    using replay_stub [OF assms(1) b(2), of m'] b(1,3) by simp
  ultimately show ?thesis unfolding b(1) by simp
qed

lemma written_suffix:
  assumes "\<forall>e\<in>set tr. script_event e" "p \<in> set (written tr)"
  shows "suffix ''.rst'' p"
proof (cases "p = ''index.rst''")
  case True
  then show ?thesis by (simp add: suffix_def)
next
  case False
  from written_stub_event [OF assms False] show ?thesis by (auto simp: suffix_def)
qed

lemma failed_header:
  assumes "build_rst E d = (st, s)" "redirect E ''index.rst'' d \<noteq> 0"
  shows "st = redirect E ''index.rst'' d \<and> files s = d"
  using assms by (auto simp: build_rst_def exec_echo_def Let_def)

lemma run_outputs:
  assumes "keeps_rst E" "build_rst E d = (st, s)" "redirect E ''index.rst'' d = 0"
  shows "''index.rst'' \<in> set (written (trace s))"
    and "map_of (files s) ''index.rst''
         = replay (tl (trace s)) [''index.rst'' \<mapsto> index_header @ ''\<newline>''] ''index.rst''"
    and "\<forall>p\<in>set (written (trace s)).
           map_of (files s) p = replay (trace s) Map.empty p \<and> map_of (files s) p \<noteq> None"
proof -
  let ?h = "(Echo index_header ''index.rst'', 0::nat)"
  from build_rst_cases [OF assms(2)] assms(3) obtain rest where t: "trace s = ?h # rest"
    by auto
  note se = build_rst_script_events [OF assms(2)]
  note rp = build_rst_replay [OF assms(1,2)]
  show w: "''index.rst'' \<in> set (written (trace s))" unfolding t by (simp add: written_def)
  have "suffix ''.rst'' ''index.rst''" by (simp add: suffix_def)
  with rp have "map_of (files s) ''index.rst'' = replay (trace s) (map_of d) ''index.rst''"
    by (simp add: rst_eq_def)
  also have "\<dots> = replay rest (replay_event ?h (map_of d)) ''index.rst''"
    unfolding t by (simp add: replay_def)
  also have "\<dots> = replay rest [''index.rst'' \<mapsto> index_header @ ''\<newline>''] ''index.rst''"
    by (rule replay_local) (simp add: sh_echo_header)
  finally show "map_of (files s) ''index.rst''
         = replay (tl (trace s)) [''index.rst'' \<mapsto> index_header @ ''\<newline>''] ''index.rst''"
    unfolding t by simp
  show "\<forall>p\<in>set (written (trace s)).
           map_of (files s) p = replay (trace s) Map.empty p \<and> map_of (files s) p \<noteq> None"
  proof
    fix p assume p: "p \<in> set (written (trace s))"
    from written_suffix [OF se p] rp
    have "map_of (files s) p = replay (trace s) (map_of d) p" by (simp add: rst_eq_def)
    also have "\<dots> = replay (trace s) Map.empty p" by (rule replay_from_scratch [OF se t p])
    finally have 1: "map_of (files s) p = replay (trace s) Map.empty p" .
    moreover have "replay (trace s) Map.empty p \<noteq> None" by (rule replay_written_some [OF p])
    ultimately show "map_of (files s) p = replay (trace s) Map.empty p \<and> map_of (files s) p \<noteq> None"
      by simp
  qed
qed

lemma second_run:
  assumes "keeps_rst E" "keeps_notebooks E"
    and "build_rst E d = (0, s1)" "build_rst E (files s1) = (0, s2)"
  shows "trace s2 = trace s1"
    and "\<forall>f\<in>set (glob_ipynb d). strip_ext f @ ''.rst'' \<in> set (written (trace s1))"
    and "\<forall>p. suffix ''.rst'' p \<longrightarrow> map_of (files s2) p = map_of (files s1) p"
proof -
  let ?T = "(Echo index_header ''index.rst'', 0) # concat (map body_events (glob_ipynb d))"
  have g: "glob_ipynb (files s1) = glob_ipynb d"
    unfolding glob_ipynb_def notebooks_build_rst [OF assms(2,3)] ..
  from build_rst_cases [OF assms(3)] have t1: "trace s1 = ?T" by simp
  from build_rst_cases [OF assms(4)] have t2: "trace s2 = ?T" unfolding g by simp
  show "trace s2 = trace s1" unfolding t1 t2 ..
  show "\<forall>f\<in>set (glob_ipynb d). strip_ext f @ ''.rst'' \<in> set (written (trace s1))"
    unfolding t1 using written_body_events [of "glob_ipynb d"] by (auto simp: written_def)
  show "\<forall>p. suffix ''.rst'' p \<longrightarrow> map_of (files s2) p = map_of (files s1) p"
  proof (intro allI impI)
    fix p assume p: "suffix ''.rst'' p"
    from build_rst_replay [OF assms(1,3)] p
    have 1: "map_of (files s1) p = replay ?T (map_of d) p" unfolding t1 by (simp add: rst_eq_def)
    from build_rst_replay [OF assms(1,4)] p
    have "map_of (files s2) p = replay ?T (map_of (files s1)) p"
      unfolding t2 by (simp add: rst_eq_def)
    also have "\<dots> = replay ?T (map_of d) p"
      by (rule replay_successful_run [of "map_of (files s1)" p "glob_ipynb d" "map_of d", OF 1 p])
    finally show "map_of (files s2) p = map_of (files s1) p" using 1 by simp
  qed
qed

text \<open>
  C8. Let the converter leave \<open>.rst\<close> files alone. The first command of every run is
  the echo of the header into \<open>index.rst\<close>, which truncates it. If the shell cannot
  open \<open>index.rst\<close> the script exits at once with that status and the directory is as
  it was. Otherwise, whatever the run's exit status, \<open>index.rst\<close> holds the fresh
  header extended by the later echoes of this run, and every file the run has written
  exists and holds what the echoes of this run alone produce, in an empty directory as
  well: nothing of its contents before the run remains. And if the converter neither adds
  nor removes a notebook, a run that succeeds and is followed by a second run that
  succeeds has written the index and the stub of every word of its loop, the second run
  executes the same commands, and after it every \<open>.rst\<close> file holds the same contents
  as after the first.
\<close>

theorem build_rst_idempotent:
  assumes "keeps_rst E" "build_rst E d = (st, s)"
  shows "(\<exists>rest. trace s = (Echo index_header ''index.rst'', redirect E ''index.rst'' d) # rest) \<and>
         (redirect E ''index.rst'' d \<noteq> 0 \<longrightarrow> st = redirect E ''index.rst'' d \<and> files s = d) \<and>
         (redirect E ''index.rst'' d = 0 \<longrightarrow>
            ''index.rst'' \<in> set (written (trace s)) \<and>
            map_of (files s) ''index.rst''
              = replay (tl (trace s)) [''index.rst'' \<mapsto> index_header @ ''\<newline>'']
                  ''index.rst'' \<and>
            (\<forall>p\<in>set (written (trace s)).
               map_of (files s) p = replay (trace s) Map.empty p \<and> map_of (files s) p \<noteq> None)) \<and>
         (\<forall>s2. keeps_notebooks E \<and> st = 0 \<and> build_rst E (files s) = (0, s2) \<longrightarrow>
            trace s2 = trace s \<and>
            (\<forall>f\<in>set (glob_ipynb d). strip_ext f @ ''.rst'' \<in> set (written (trace s))) \<and>
            (\<forall>p. suffix ''.rst'' p \<longrightarrow> map_of (files s2) p = map_of (files s) p))"
proof -
  have 1: "\<exists>rest. trace s = (Echo index_header ''index.rst'', redirect E ''index.rst'' d) # rest"
    using build_rst_cases [OF assms(2)] by auto
  have 2: "redirect E ''index.rst'' d \<noteq> 0 \<longrightarrow> st = redirect E ''index.rst'' d \<and> files s = d"
    using failed_header [OF assms(2)] by blast
  have 3: "redirect E ''index.rst'' d = 0 \<longrightarrow>
            ''index.rst'' \<in> set (written (trace s)) \<and>
            map_of (files s) ''index.rst''
              = replay (tl (trace s)) [''index.rst'' \<mapsto> index_header @ ''\<newline>'']
                  ''index.rst'' \<and>
            (\<forall>p\<in>set (written (trace s)).
               map_of (files s) p = replay (trace s) Map.empty p \<and> map_of (files s) p \<noteq> None)"
  proof
    assume r: "redirect E ''index.rst'' d = 0"
    show "''index.rst'' \<in> set (written (trace s)) \<and>
            map_of (files s) ''index.rst''
              = replay (tl (trace s)) [''index.rst'' \<mapsto> index_header @ ''\<newline>'']
                  ''index.rst'' \<and>
            (\<forall>p\<in>set (written (trace s)).
               map_of (files s) p = replay (trace s) Map.empty p \<and> map_of (files s) p \<noteq> None)"
      by (rule conjI [OF run_outputs(1) [OF assms r]
                conjI [OF run_outputs(2) [OF assms r] run_outputs(3) [OF assms r]]])
  qed
  have 4: "\<forall>s2. keeps_notebooks E \<and> st = 0 \<and> build_rst E (files s) = (0, s2) \<longrightarrow>
            trace s2 = trace s \<and>
            (\<forall>f\<in>set (glob_ipynb d). strip_ext f @ ''.rst'' \<in> set (written (trace s))) \<and>
            (\<forall>p. suffix ''.rst'' p \<longrightarrow> map_of (files s2) p = map_of (files s) p)"
  proof (rule allI, rule impI)
    fix s2 assume a: "keeps_notebooks E \<and> st = 0 \<and> build_rst E (files s) = (0, s2)"
    then have k: "keeps_notebooks E" and r1: "build_rst E d = (0, s)"
      and r2: "build_rst E (files s) = (0, s2)" using assms(2) by simp_all
    show "trace s2 = trace s \<and>
            (\<forall>f\<in>set (glob_ipynb d). strip_ext f @ ''.rst'' \<in> set (written (trace s))) \<and>
            (\<forall>p. suffix ''.rst'' p \<longrightarrow> map_of (files s2) p = map_of (files s) p)"
      by (rule conjI [OF second_run(1) [OF assms(1) k r1 r2]
                conjI [OF second_run(2) [OF assms(1) k r1 r2]
                          second_run(3) [OF assms(1) k r1 r2]]])
  qed
  show ?thesis by (rule conjI [OF 1 conjI [OF 2 conjI [OF 3 4]]])
qed

theorem build_rst_idempotent_witness:
  "map_of (files (snd (build_rst converting_env
       [(''b.ipynb'', ''{}''), (''a.ipynb'', ''{}''), (''index.rst'', ''   stale\<newline>'')])))
     ''index.rst''
   = Some (unlines ['''', ''Tutorials'', ''========='', '''', ''.. toctree::'',
                    ''   :maxdepth: 2'', '''', ''   a'', ''   b'']) \<and>
   map_of (files (snd (build_rst converting_env (files (snd (build_rst converting_env
       [(''b.ipynb'', ''{}''), (''a.ipynb'', ''{}''), (''index.rst'', ''   stale\<newline>'')]))))))
     ''index.rst''
   = Some (unlines ['''', ''Tutorials'', ''========='', '''', ''.. toctree::'',
                    ''   :maxdepth: 2'', '''', ''   a'', ''   b'']) \<and>
   map_of (files (snd (build_rst converting_env (files (snd (build_rst converting_env
       [(''b.ipynb'', ''{}''), (''a.ipynb'', ''{}''), (''index.rst'', ''   stale\<newline>'')]))))))
     ''a.rst''
   = Some (unlines [''a'', ''----------------'', '''', ''.. raw:: html'', ''   :file: a.html'', ''''])"
proof -
  let ?d = "[(''b.ipynb'', ''{}''), (''a.ipynb'', ''{}''), (''index.rst'', ''   stale\<newline>'')]"
  let ?r1 = "build_rst converting_env ?d"
  let ?r2 = "build_rst converting_env (files (snd ?r1))"
  let ?index = "unlines ['''', ''Tutorials'', ''========='', '''', ''.. toctree::'',
                    ''   :maxdepth: 2'', '''', ''   a'', ''   b'']"
  let ?stub = "unlines [''a'', ''----------------'', '''', ''.. raw:: html'', ''   :file: a.html'', '''']"
  have v1: "fst ?r1 = 0" by code_simp
  have v2: "fst ?r2 = 0" by code_simp
  have h2: "?r1 = (0, snd ?r1)" by (simp add: prod_eq_iff v1)
  have h4: "?r2 = (0, snd ?r2)" by (simp add: prod_eq_iff v2)
  have c1: "map_of (files (snd ?r1)) ''index.rst'' = Some ?index" by code_simp
  have c2: "map_of (files (snd ?r1)) ''a.rst'' = Some ?stub" by code_simp
  have s1: "suffix ''.rst'' ''index.rst''" and s2: "suffix ''.rst'' ''a.rst''"
    by (simp_all add: suffix_def)
  from build_rst_idempotent [OF converting_env_keeps_rst h2] converting_env_keeps_notebooks h4
  have "\<forall>p. suffix ''.rst'' p \<longrightarrow> map_of (files (snd ?r2)) p = map_of (files (snd ?r1)) p"
    by blast
  with s1 s2 have "map_of (files (snd ?r2)) ''index.rst'' = map_of (files (snd ?r1)) ''index.rst''"
    and "map_of (files (snd ?r2)) ''a.rst'' = map_of (files (snd ?r1)) ''a.rst''" by blast+
  with c1 c2 show ?thesis by simp
qed

subsection \<open>The stub files\<close>

lemma stub_text_lines:
  "stub_text b @ ''\<newline>''
   = unlines [b, ''----------------'', '''', ''.. raw:: html'', ''   :file: '' @ b @ ''.html'', '''']"
  by (simp add: stub_text_def unlines_def)

text \<open>
  C4, at a directory with the notebooks \<open>a.ipynb\<close> and \<open>index.ipynb\<close>: the run
  succeeds; \<open>a.rst\<close> holds the title \<open>a\<close> and the directive, and nothing else; the
  stub of \<open>index.ipynb\<close> is echoed into \<open>index.rst\<close>, which then receives the index
  entry as well, so that the stub file of this notebook does not consist of the title
  and the directive.
\<close>

theorem stub_of_index_holds_more:
  "fst (build_rst converting_env [(''a.ipynb'', ''{}''), (''index.ipynb'', ''{}'')]) = 0 \<and>
   map_of (files (snd (build_rst converting_env
          [(''a.ipynb'', ''{}''), (''index.ipynb'', ''{}'')]))) ''a.rst''
     = Some (unlines [''a'', ''----------------'', '''', ''.. raw:: html'',
                      ''   :file: a.html'', '''']) \<and>
   (Echo (stub_text ''index'') ''index.rst'', 0)
     \<in> set (trace (snd (build_rst converting_env
          [(''a.ipynb'', ''{}''), (''index.ipynb'', ''{}'')]))) \<and>
   map_of (files (snd (build_rst converting_env
          [(''a.ipynb'', ''{}''), (''index.ipynb'', ''{}'')]))) ''index.rst''
     = Some (unlines [''index'', ''----------------'', '''', ''.. raw:: html'',
                      ''   :file: index.html'', '''', ''   index''])"
  by code_simp

lemma stub_event_in_passes:
  assumes "f \<in> set ws"
  shows "(Echo (stub_text (strip_ext f)) (strip_ext f @ ''.rst''), 0)
           \<in> set (concat (map body_events ws))"
proof -
  have "(Echo (stub_text (strip_ext f)) (strip_ext f @ ''.rst''), 0) \<in> set (body_events f)"
    by (simp add: body_events_def)
  then show ?thesis using assms by auto
qed

lemma stub_contents:
  assumes "keeps_rst E" "build_rst E d = (0, s)"
    and "f \<in> set (glob_ipynb d)" "strip_ext f \<noteq> ''index''"
  shows "map_of (files s) (strip_ext f @ ''.rst'') = Some (sh_echo (stub_text (strip_ext f)))"
proof -
  from build_rst_cases [OF assms(2)]
  have t: "trace s = (Echo index_header ''index.rst'', 0) # concat (map body_events (glob_ipynb d))"
    by simp
  have w: "(Echo (stub_text (strip_ext f)) (strip_ext f @ ''.rst''), 0) \<in> set (trace s)"
    unfolding t using stub_event_in_passes [OF assms(3)] by simp
  have "suffix ''.rst'' (strip_ext f @ ''.rst'')" by (simp add: suffix_def)
  with build_rst_replay [OF assms(1,2)]
  have "map_of (files s) (strip_ext f @ ''.rst'')
        = replay (trace s) (map_of d) (strip_ext f @ ''.rst'')" by (simp add: rst_eq_def)
  also have "\<dots> = Some (sh_echo (stub_text (strip_ext f)))"
    using replay_stub [OF build_rst_script_events [OF assms(2)] assms(4), of "map_of d"] w
    by simp
  finally show ?thesis .
qed

text \<open>
  What does hold of the stubs. Provided the converter leaves \<open>.rst\<close> files alone:
  after a run that exits with status 0, every notebook \<open>name.ipynb\<close> of the directory
  other than \<open>index.ipynb\<close>, with no backslash in its name, has the stub file
  \<open>name.rst\<close>, which holds the title \<open>name\<close>, its underline, and the directive
  \<open>.. raw:: html\<close> with \<open>:file: name.html\<close>, and nothing else.
\<close>

theorem stub_files_hold_stubs:
  assumes "keeps_rst E" "build_rst E d = (0, s)"
    and "f \<in> set (notebooks d)" "f \<noteq> ''index.ipynb''" "backslash \<notin> set f"
  shows "f = strip_ext f @ ''.ipynb'' \<and>
         map_of (files s) (strip_ext f @ ''.rst'')
           = Some (unlines [strip_ext f, ''----------------'', '''', ''.. raw:: html'',
                            ''   :file: '' @ strip_ext f @ ''.html'', ''''])"
proof -
  have nb: "is_notebook f" using assms(3) by (simp add: notebooks_set)
  then obtain stem where stem: "f = stem @ ''.ipynb''" using is_notebook_stem by blast
  then have se: "strip_ext f = stem" by (simp add: strip_ext_ipynb)
  have 1: "f = strip_ext f @ ''.ipynb''" unfolding se by (rule stem)
  have ni: "strip_ext f \<noteq> ''index''" using strip_ext_index [OF nb] assms(4) by simp
  from assms(5) stem have "backslash \<notin> set stem" by auto
  then have bs: "backslash \<notin> set (strip_ext f)" unfolding se .
  have g: "f \<in> set (glob_ipynb d)" using assms(3) by (auto simp: glob_ipynb_def)
  have "map_of (files s) (strip_ext f @ ''.rst'') = Some (sh_echo (stub_text (strip_ext f)))"
    by (rule stub_contents [OF assms(1,2) g ni])
  then have "map_of (files s) (strip_ext f @ ''.rst'')
           = Some (unlines [strip_ext f, ''----------------'', '''', ''.. raw:: html'',
                            ''   :file: '' @ strip_ext f @ ''.html'', ''''])"
    unfolding sh_echo_stub [OF bs] stub_text_lines .
  with 1 show ?thesis ..
qed

theorem stub_files_hold_stubs_witness:
  "map_of (files (snd (build_rst converting_env [(''b.ipynb'', ''{}''), (''a.ipynb'', ''{}'')])))
     ''a.rst''
   = Some (unlines [''a'', ''----------------'', '''', ''.. raw:: html'', ''   :file: a.html'', ''''])"
proof -
  let ?d = "[(''b.ipynb'', ''{}''), (''a.ipynb'', ''{}'')]"
  have v: "fst (build_rst converting_env ?d) = 0" by code_simp
  have h2: "build_rst converting_env ?d = (0, snd (build_rst converting_env ?d))"
    by (simp add: prod_eq_iff v)
  have h3: "''a.ipynb'' \<in> set (notebooks ?d)" by code_simp
  have h4: "''a.ipynb'' \<noteq> ''index.ipynb''" by simp
  have h5: "backslash \<notin> set ''a.ipynb''" by (simp add: backslash_def)
  have e: "strip_ext ''a.ipynb'' = ''a''" "''a'' @ ''.rst'' = ''a.rst''"
    "''   :file: '' @ ''a'' @ ''.html'' = ''   :file: a.html''" by code_simp+
  from stub_files_hold_stubs [OF converting_env_keeps_rst h2 h3 h4 h5]
  show ?thesis unfolding e by blast
qed

subsection \<open>What does hold of the index\<close>

text \<open>
  Provided the converter leaves \<open>.rst\<close> files alone and no word of the loop has the
  base name \<open>index\<close>: after a run that exits with status 0, \<open>index.rst\<close> holds the
  header, with its one \<open>toctree\<close> directive, followed by one entry per word of the
  loop, in the order of the loop; an entry is what \<open>echo\<close> writes for three spaces
  and the base name, which is that line itself when the name has no backslash.
\<close>

theorem index_lists_stubs:
  assumes "keeps_rst E" "build_rst E d = (0, s)"
    and "\<forall>f\<in>set (glob_ipynb d). strip_ext f \<noteq> ''index''"
  shows "map_of (files s) ''index.rst'' =
         Some (index_header @ ''\<newline>''
               @ concat (map (\<lambda>f. sh_echo (index_entry (strip_ext f))) (glob_ipynb d)))"
proof -
  from build_rst_cases [OF assms(2)]
  have t: "trace s = (Echo index_header ''index.rst'', 0) # concat (map body_events (glob_ipynb d))"
    by simp
  have "suffix ''.rst'' ''index.rst''" by (simp add: suffix_def)
  with build_rst_replay [OF assms(1,2)]
  have "map_of (files s) ''index.rst'' = replay (trace s) (map_of d) ''index.rst''"
    by (simp add: rst_eq_def)
  also have "\<dots> = replay (concat (map body_events (glob_ipynb d)))
                     (replay [(Echo index_header ''index.rst'', 0)] (map_of d)) ''index.rst''"
    unfolding t by (simp add: replay_def)
  also have "\<dots> = Some ((index_header @ ''\<newline>'')
               @ concat (map (\<lambda>f. sh_echo (index_entry (strip_ext f))) (glob_ipynb d)))"
    by (rule replay_index_entries [OF assms(3)]) (simp add: replay_def sh_echo_header)
  finally show ?thesis by simp
qed

theorem index_lists_stubs_witness:
  "map_of (files (snd (build_rst converting_env [(''b.ipynb'', ''{}''), (''a.ipynb'', ''{}'')])))
     ''index.rst''
   = Some (unlines ['''', ''Tutorials'', ''========='', '''', ''.. toctree::'',
                    ''   :maxdepth: 2'', '''', ''   a'', ''   b''])"
proof -
  let ?d = "[(''b.ipynb'', ''{}''), (''a.ipynb'', ''{}'')]"
  have v: "fst (build_rst converting_env ?d) = 0" by code_simp
  have h2: "build_rst converting_env ?d = (0, snd (build_rst converting_env ?d))"
    by (simp add: prod_eq_iff v)
  have h3: "\<forall>f\<in>set (glob_ipynb ?d). strip_ext f \<noteq> ''index''" by code_simp
  have e: "index_header @ ''\<newline>''
             @ concat (map (\<lambda>f. sh_echo (index_entry (strip_ext f))) (glob_ipynb ?d))
           = unlines ['''', ''Tutorials'', ''========='', '''', ''.. toctree::'',
                      ''   :maxdepth: 2'', '''', ''   a'', ''   b'']" by code_simp
  from index_lists_stubs [OF converting_env_keeps_rst h2 h3] show ?thesis unfolding e .
qed

lemma replay_failed_pass_index:
  assumes "k < 3" "st \<noteq> 0" "strip_ext f \<noteq> ''index''"
  shows "replay (failed_pass f k st) m ''index.rst'' = m ''index.rst''"
proof -
  have "k = 0 \<or> k = 1 \<or> k = 2" using assms(1) by auto
  moreover have "strip_ext f @ ''.rst'' \<noteq> ''index.rst''"
    using assms(3) stub_name_index [of "strip_ext f"] by simp
  ultimately show ?thesis
    using assms(2) by (auto simp: failed_pass_def body_events_def replay_def)
qed

text \<open>
  The order of the steps, and the index after a failure. Provided the index could be
  created, the converter leaves \<open>.rst\<close> files alone and no word of the loop has the
  base name \<open>index\<close>: the run consists of the echo of the header, then complete passes
  (convert, write the stub, append the entry, in this order) for a first part of the
  words of the loop, and, if the exit status is not 0, the beginning of the pass for the
  next word up to its failing command; \<open>index.rst\<close> then holds the header and the
  entries of exactly the words whose pass is complete.
\<close>

theorem index_holds_completed_passes:
  assumes "keeps_rst E" "build_rst E d = (st, s)" "redirect E ''index.rst'' d = 0"
    and "\<forall>f\<in>set (glob_ipynb d). strip_ext f \<noteq> ''index''"
  shows "\<exists>done rest. glob_ipynb d = done @ rest \<and>
           (st = 0 \<longrightarrow> rest = [] \<and>
              trace s = (Echo index_header ''index.rst'', 0) # concat (map body_events done)) \<and>
           (st \<noteq> 0 \<longrightarrow> rest \<noteq> [] \<and>
              (\<exists>k<3. trace s = (Echo index_header ''index.rst'', 0)
                         # concat (map body_events done) @ failed_pass (hd rest) k st)) \<and>
           map_of (files s) ''index.rst'' =
             Some (index_header @ ''\<newline>''
                   @ concat (map (\<lambda>f. sh_echo (index_entry (strip_ext f))) done))"
proof -
  let ?h = "(Echo index_header ''index.rst'', 0::nat)"
  let ?entries = "\<lambda>ws. concat (map (\<lambda>f. sh_echo (index_entry (strip_ext f))) ws)"
  have "suffix ''.rst'' ''index.rst''" by (simp add: suffix_def)
  with build_rst_replay [OF assms(1,2)]
  have c: "map_of (files s) ''index.rst'' = replay (trace s) (map_of d) ''index.rst''"
    by (simp add: rst_eq_def)
  have hd: "replay [?h] (map_of d) ''index.rst'' = Some (index_header @ ''\<newline>'')"
    by (simp add: replay_def sh_echo_header)
  from build_rst_cases [OF assms(2)] show ?thesis
  proof (elim disjE conjE exE)
    assume "st \<noteq> 0" "redirect E ''index.rst'' d = st"
    then show ?thesis using assms(3) by simp
  next
    assume a: "st = 0" "trace s = ?h # concat (map body_events (glob_ipynb d))"
    have "replay (trace s) (map_of d) ''index.rst''
          = replay (concat (map body_events (glob_ipynb d))) (replay [?h] (map_of d)) ''index.rst''"
      unfolding a(2) by (simp add: replay_def)
    also have "\<dots> = Some ((index_header @ ''\<newline>'') @ ?entries (glob_ipynb d))"
      by (rule replay_index_entries [of "glob_ipynb d" "replay [?h] (map_of d)"
            "index_header @ ''\<newline>''", OF assms(4) hd])
    finally have "map_of (files s) ''index.rst''
        = Some (index_header @ ''\<newline>'' @ ?entries (glob_ipynb d))" using c by simp
    moreover have "glob_ipynb d = glob_ipynb d @ []" by simp
    ultimately show ?thesis using a by blast
  next
    fix dn f rest k
    assume a: "st \<noteq> 0" "glob_ipynb d = dn @ f # rest" "k < 3"
      "trace s = ?h # concat (map body_events dn) @ failed_pass f k st"
    have nd: "\<forall>g\<in>set dn. strip_ext g \<noteq> ''index''" and nf: "strip_ext f \<noteq> ''index''"
      using assms(4) unfolding a(2) by simp_all
    have "replay (trace s) (map_of d) ''index.rst''
          = replay (failed_pass f k st)
              (replay (concat (map body_events dn)) (replay [?h] (map_of d))) ''index.rst''"
      unfolding a(4) by (simp add: replay_def)
    also have "\<dots> = replay (concat (map body_events dn)) (replay [?h] (map_of d)) ''index.rst''"
      by (rule replay_failed_pass_index [OF a(3,1) nf])
    also have "\<dots> = Some ((index_header @ ''\<newline>'') @ ?entries dn)"
      by (rule replay_index_entries [of dn "replay [?h] (map_of d)"
            "index_header @ ''\<newline>''", OF nd hd])
    finally have m: "map_of (files s) ''index.rst'' = Some (index_header @ ''\<newline>'' @ ?entries dn)"
      using c by simp
    show ?thesis
    proof (rule exI [of _ dn], rule exI [of _ "f # rest"], intro conjI impI)
      show "glob_ipynb d = dn @ f # rest" by (rule a(2))
      show "f # rest = []" if "st = 0" using that a(1) by simp
      show "trace s = ?h # concat (map body_events dn)" if "st = 0" using that a(1) by simp
      show "f # rest \<noteq> []" by simp
      show "\<exists>k<3. trace s = ?h # concat (map body_events dn) @ failed_pass (hd (f # rest)) k st"
        using a(3,4) by auto
      show "map_of (files s) ''index.rst'' = Some (index_header @ ''\<newline>'' @ ?entries dn)"
        by (rule m)
    qed
  qed
qed

theorem index_holds_completed_passes_witness:
  "fst (build_rst \<lparr>nbconvert = (\<lambda>f d. if f = ''b.ipynb'' then (3, d) else (0, d)),
                    redirect = (\<lambda>target d. 0)\<rparr>
          [(''a.ipynb'', ''{}''), (''b.ipynb'', ''{}''), (''c.ipynb'', ''{}'')]) = 3 \<and>
   (\<exists>done rest. [''a.ipynb'', ''b.ipynb'', ''c.ipynb''] = done @ rest \<and> rest \<noteq> [] \<and>
      map_of (files (snd (build_rst \<lparr>nbconvert = (\<lambda>f d. if f = ''b.ipynb'' then (3, d) else (0, d)),
                                     redirect = (\<lambda>target d. 0)\<rparr>
          [(''a.ipynb'', ''{}''), (''b.ipynb'', ''{}''), (''c.ipynb'', ''{}'')]))) ''index.rst''
        = Some (index_header @ ''\<newline>''
                @ concat (map (\<lambda>f. sh_echo (index_entry (strip_ext f))) done))) \<and>
   map_of (files (snd (build_rst \<lparr>nbconvert = (\<lambda>f d. if f = ''b.ipynb'' then (3, d) else (0, d)),
                                  redirect = (\<lambda>target d. 0)\<rparr>
          [(''a.ipynb'', ''{}''), (''b.ipynb'', ''{}''), (''c.ipynb'', ''{}'')]))) ''index.rst''
     = Some (unlines ['''', ''Tutorials'', ''========='', '''', ''.. toctree::'',
                      ''   :maxdepth: 2'', '''', ''   a''])"
proof -
  let ?E = "\<lparr>nbconvert = (\<lambda>f d. if f = ''b.ipynb'' then (3, d) else (0::nat, d::dir)),
             redirect = (\<lambda>target d. 0)\<rparr>"
  let ?d = "[(''a.ipynb'', ''{}''), (''b.ipynb'', ''{}''), (''c.ipynb'', ''{}'')]"
  have h1: "keeps_rst ?E" by (simp add: keeps_rst_def)
  have v: "fst (build_rst ?E ?d) = 3" by code_simp
  have h2: "build_rst ?E ?d = (3, snd (build_rst ?E ?d))" by (simp add: prod_eq_iff v)
  have h3: "redirect ?E ''index.rst'' ?d = 0" by simp
  have g: "glob_ipynb ?d = [''a.ipynb'', ''b.ipynb'', ''c.ipynb'']" by code_simp
  have h4: "\<forall>f\<in>set (glob_ipynb ?d). strip_ext f \<noteq> ''index''" by code_simp
  from index_holds_completed_passes [OF h1 h2 h3 h4] obtain dn rest where
    a: "glob_ipynb ?d = dn @ rest" "(3::nat) \<noteq> 0 \<longrightarrow> rest \<noteq> [] \<and>
              (\<exists>k<3. trace (snd (build_rst ?E ?d)) = (Echo index_header ''index.rst'', 0)
                         # concat (map body_events dn) @ failed_pass (hd rest) k 3)"
      "map_of (files (snd (build_rst ?E ?d))) ''index.rst'' =
             Some (index_header @ ''\<newline>''
                   @ concat (map (\<lambda>f. sh_echo (index_entry (strip_ext f))) dn))"
    by blast
  have a1: "[''a.ipynb'', ''b.ipynb'', ''c.ipynb''] = dn @ rest" using a(1) g by simp
  have a2: "rest \<noteq> []" using a(2) by simp
  have c: "map_of (files (snd (build_rst ?E ?d))) ''index.rst''
     = Some (unlines ['''', ''Tutorials'', ''========='', '''', ''.. toctree::'',
                      ''   :maxdepth: 2'', '''', ''   a''])" by code_simp
  from a1 a2 a(3)
  have "\<exists>done rest. [''a.ipynb'', ''b.ipynb'', ''c.ipynb''] = done @ rest \<and> rest \<noteq> [] \<and>
      map_of (files (snd (build_rst ?E ?d))) ''index.rst''
        = Some (index_header @ ''\<newline>''
                @ concat (map (\<lambda>f. sh_echo (index_entry (strip_ext f))) done))" by blast
  with v c show ?thesis by simp
qed

end
